theory Spec2Isabelle
  imports Complex_Main
begin

section \<open>Merger resolution on a hypotheses graph (pgmlink)\<close>

text \<open>
  A shallow embedding of \<^verbatim>\<open>include/pgmlink/track_features_auxiliary.h\<close>: the helper
  templates \<^verbatim>\<open>feature_array_to_arma_mat\<close> and \<^verbatim>\<open>get_centers\<close>, the constructor of
  \<^verbatim>\<open>MergerResolver\<close> and its template member \<^verbatim>\<open>collect_arcs\<close> are translated from
  the header. The member functions that the header only declares are modelled from the
  written specification; each such definition says so.
\<close>

subsection \<open>Exceptions\<close>

text \<open>
  Every \<^verbatim>\<open>throw\<close> of the header is a value; so are a failed \<^verbatim>\<open>assert\<close>, an index
  outside a container, a container of an impossible size and an operation on matrices
  of different shapes (Armadillo refuses it).
\<close>

datatype error =
    runtime_error string
  | range_error string
  | length_error
  | logic_error string
  | assertion_failed
  | out_of_bounds

subsection \<open>Numbers\<close>

text \<open>
  The clustering helpers are used with \<^verbatim>\<open>arma::mat\<close>, a matrix of \<^verbatim>\<open>double\<close>. A
  \<open>double\<close> is a finite value, an infinity or a NaN. The finite values are taken as
  reals: the rounding of the sums and quotients is not modelled, the special values of a
  division by zero are. Both signed zeros are \<open>Finite 0\<close>.
\<close>

datatype double = Finite real | PosInf | NegInf | NaN

fun dplus :: "double \<Rightarrow> double \<Rightarrow> double" where
  "dplus (Finite a) (Finite b) = Finite (a + b)"
| "dplus NaN y = NaN"
| "dplus x NaN = NaN"
| "dplus PosInf NegInf = NaN"
| "dplus NegInf PosInf = NaN"
| "dplus PosInf y = PosInf"
| "dplus x PosInf = PosInf"
| "dplus NegInf y = NegInf"
| "dplus x NegInf = NegInf"

text \<open>\<open>x / n\<close> for an \<^verbatim>\<open>int\<close> \<open>n\<close>, which is converted to \<^verbatim>\<open>double\<close> first.\<close>

fun ddiv_int :: "double \<Rightarrow> int \<Rightarrow> double" where
  "ddiv_int (Finite a) n =
     (if n \<noteq> 0 then Finite (a / of_int n)
      else if a = 0 then NaN else if 0 < a then PosInf else NegInf)"
| "ddiv_int PosInf n = (if n < 0 then NegInf else PosInf)"
| "ddiv_int NegInf n = (if n < 0 then PosInf else NegInf)"
| "ddiv_int NaN n = NaN"

text \<open>
  An \<^verbatim>\<open>int\<close> has 32 bits. \<open>to_int\<close> is the conversion of a size (\<^verbatim>\<open>size_t\<close>,
  \<^verbatim>\<open>arma::uword\<close>) to \<^verbatim>\<open>int\<close>, which keeps the low 32 bits in two's complement;
  \<open>int_times\<close> is the product of two \<^verbatim>\<open>int\<close>s as the hardware computes it (an
  overflowing signed product is undefined in C++; the theorems below stay away from it).
\<close>

definition wrap_int :: "int \<Rightarrow> int" where
  "wrap_int i = (i + 2 ^ 31) mod 2 ^ 32 - 2 ^ 31"

definition to_int :: "nat \<Rightarrow> int" where
  "to_int n = wrap_int (int n)"

definition int_times :: "int \<Rightarrow> int \<Rightarrow> int" where
  "int_times a b = wrap_int (a * b)"

subsection \<open>Matrices\<close>

text \<open>
  An Armadillo matrix is stored by columns: the model keeps the number of rows and the
  list of the columns. \<open>wf_Mat\<close> says that each column has \<open>n_rows\<close> entries, which
  every Armadillo matrix satisfies.
\<close>

record 'a Mat =
  n_rows :: nat
  cols :: "'a list list"

definition n_cols :: "'a Mat \<Rightarrow> nat" where
  "n_cols M = length (cols M)"


definition zeros :: "double Mat \<Rightarrow> double Mat" where
  "zeros M = M\<lparr>cols := replicate (n_cols M) (replicate (n_rows M) (Finite 0))\<rparr>"

subsection \<open>feature\_array\_to\_arma\_mat\<close>

text \<open>
  The loop runs \<open>count\<close> from 0 up to \<open>n\<close>. Each round copies \<open>stepSize\<close> entries of
  the source, starting at \<open>count * stepSize\<close>, into a fresh column and assigns it to
  column \<open>count\<close> of \<open>out\<close>; \<open>conv\<close> is the conversion from \<open>T\<close> to \<open>U\<close>. Reading
  past the end of the source and assigning to a column that \<open>out\<close> does not have are
  \<open>out_of_bounds\<close>; they cannot happen once the test before the loop has passed
  without overflow.
\<close>

fun feature_array_to_arma_mat_loop ::
  "('a \<Rightarrow> 'b) \<Rightarrow> 'a list \<Rightarrow> nat \<Rightarrow> nat list \<Rightarrow> 'b Mat \<Rightarrow> error + 'b Mat" where
  "feature_array_to_arma_mat_loop conv src stepSize [] out = Inr out"
| "feature_array_to_arma_mat_loop conv src stepSize (count # counts) out =
     (if length src < count * stepSize + stepSize then Inl out_of_bounds
      else if n_cols out \<le> count then Inl out_of_bounds
      else if n_rows out \<noteq> stepSize then Inl (logic_error ''copy into submatrix: incompatible matrix dimensions'')
      else feature_array_to_arma_mat_loop conv src stepSize counts
             (out\<lparr>cols := (cols out)[count := map conv (take stepSize (drop (count * stepSize) src))]\<rparr>))"

definition feature_array_to_arma_mat :: "('a \<Rightarrow> 'b) \<Rightarrow> 'a list \<Rightarrow> 'b Mat \<Rightarrow> error + 'b Mat" where
  "feature_array_to_arma_mat conv src out =
     (let stepSize = to_int (n_rows out);
          n = to_int (n_cols out)
      in if int_times stepSize n \<noteq> to_int (length src)
           then Inl (range_error ''Source vector dimension and matrix dimensions do not agree!'')
         else if 0 < n \<and> stepSize < 0 then Inl length_error
         else feature_array_to_arma_mat_loop conv src (nat stepSize) [0..<nat n] out)"

subsection \<open>get\_centers\<close>

text \<open>
  The sum of two columns; Armadillo refuses columns of different lengths.
\<close>

definition col_plus :: "double list \<Rightarrow> double list \<Rightarrow> error + double list" where
  "col_plus a b =
     (if length a \<noteq> length b then Inl (logic_error ''addition: incompatible matrix dimensions'')
      else Inr (map2 dplus a b))"

text \<open>
  The first loop, over the columns \<open>n\<close> of the data: \<open>labelIt\<close> points at entry \<open>n\<close>
  of the labels. Dereferencing it past the end of the labels, indexing \<open>clusterSize\<close>
  by a label that is not below its size and taking a column of \<open>centers\<close> that it does
  not have are \<open>out_of_bounds\<close>: the source checks none of them.
\<close>

fun get_centers_sum ::
  "double Mat \<Rightarrow> nat list \<Rightarrow> nat list \<Rightarrow> int list \<times> double Mat \<Rightarrow> error + int list \<times> double Mat" where
  "get_centers_sum data labels [] st = Inr st"
| "get_centers_sum data labels (n # ns) (clusterSize, centers) =
     (if length labels \<le> n then Inl out_of_bounds
      else let l = labels ! n in
        if length clusterSize \<le> l then Inl out_of_bounds
        else if n_cols centers \<le> l then Inl out_of_bounds
        else case col_plus (cols centers ! l) (cols data ! n) of
               Inl e \<Rightarrow> Inl e
             | Inr c \<Rightarrow> get_centers_sum data labels ns
                          (clusterSize[l := clusterSize ! l + 1], centers\<lparr>cols := (cols centers)[l := c]\<rparr>))"

text \<open>The second loop, over the clusters \<open>i\<close>: column \<open>i\<close> is divided by \<open>clusterSize[i]\<close>.\<close>

fun get_centers_divide :: "nat list \<Rightarrow> int list \<Rightarrow> double Mat \<Rightarrow> error + double Mat" where
  "get_centers_divide [] clusterSize centers = Inr centers"
| "get_centers_divide (i # is) clusterSize centers =
     (if n_cols centers \<le> i then Inl out_of_bounds
      else get_centers_divide is clusterSize
             (centers\<lparr>cols := (cols centers)[i := map (\<lambda>x. ddiv_int x (clusterSize ! i)) (cols centers ! i)]\<rparr>))"

text \<open>
  \<open>k\<close> is an \<^verbatim>\<open>int\<close>; \<^verbatim>\<open>std::vector<int> clusterSize(k, 0)\<close> throws for a negative
  \<open>k\<close>, which is converted to a size beyond \<^verbatim>\<open>max_size()\<close>. The sizes of the
  clusters are counted without a bound: a cluster of \<open>2^31\<close> points or more would
  overflow its \<^verbatim>\<open>int\<close>, which is undefined.
\<close>

definition get_centers :: "double Mat \<Rightarrow> nat list \<Rightarrow> double Mat \<Rightarrow> int \<Rightarrow> error + double Mat" where
  "get_centers data labels centers k =
     (if k < 0 then Inl length_error
      else case get_centers_sum data labels [0..<n_cols data] (replicate (nat k) 0, zeros centers) of
             Inl e \<Rightarrow> Inl e
           | Inr (clusterSize, centers') \<Rightarrow> get_centers_divide [0..<nat k] clusterSize centers')"

text \<open>
  The arithmetic mean of a list of samples, coordinate by coordinate (\<open>R\<close> coordinates);
  this one follows the words of the specification, not the code.
\<close>

definition arithmetic_mean :: "nat \<Rightarrow> real list list \<Rightarrow> real list" where
  "arithmetic_mean R xss = map (\<lambda>r. (\<Sum>c\<leftarrow>xss. c ! r) / real (length xss)) [0..<R]"



subsection \<open>KMeans\<close>

text \<open>
  Modelled from the spec: \<^verbatim>\<open>KMeans::operator()\<close>, which the header declares and does
  not define. The flat sample array holds \<open>ndim\<close> coordinates per sample. It is converted
  to a matrix of \<open>ndim\<close> rows with one column per sample, by
  \<open>feature_array_to_arma_mat\<close>; the call fails if the size of the array is not a
  multiple of \<open>ndim\<close> or if \<open>k\<close> exceeds the number of samples. The partition of the
  samples into \<open>k\<close> clusters is the work of an external library: \<open>cluster\<close> stands
  for it and returns a label for each column. The centers come from \<open>get_centers\<close> and
  are returned as a flat array, cluster after cluster. A dimension of 0 is refused.
\<close>

definition KMeans :: "(int \<Rightarrow> double Mat \<Rightarrow> nat list) \<Rightarrow> nat \<Rightarrow> int \<Rightarrow> double list \<Rightarrow> error + double list" where
  "KMeans cluster ndim k samples =
     (if ndim = 0 then Inl (logic_error ''dimension must be positive'')
      else case feature_array_to_arma_mat id samples
                  \<lparr>n_rows = ndim, cols = replicate (length samples div ndim) (replicate ndim (Finite 0))\<rparr> of
             Inl e \<Rightarrow> Inl e
           | Inr data \<Rightarrow>
               (if int (n_cols data) < k then Inl (logic_error ''more clusters than samples'')
                else (case get_centers data (cluster k data)
                             \<lparr>n_rows = ndim, cols = replicate (nat k) (replicate ndim (Finite 0))\<rparr> k of
                        Inl e \<Rightarrow> Inl e
                      | Inr centers \<Rightarrow> Inr (concat (cols centers)))))"

subsection \<open>The graph and its attachments\<close>

text \<open>
  The property maps that can be attached to a \<^verbatim>\<open>HypothesesGraph\<close>: the tags that
  the header names, and those of the object record and of the time index.
\<close>

datatype property =
    node_active2
  | arc_active
  | arc_distance
  | merger_resolved_to
  | node_originated_from
  | node_traxel
  | node_timestep

text \<open>
  Modelled from the spec: the object record (\<^verbatim>\<open>Traxel\<close>, declared in
  \<^verbatim>\<open>pgmlink/traxels.h\<close>, which is not part of the sources at hand). It holds an
  identifier, a time index and a mapping from the names of features to lists of numbers.
\<close>

record Traxel =
  Id :: nat
  Timestep :: int
  features :: "(string \<times> real list) list"

text \<open>
  Modelled from the spec: the graph (\<^verbatim>\<open>HypothesesGraph\<close>, declared in
  \<^verbatim>\<open>pgmlink/hypotheses.h\<close>, which is not part of the sources at hand). Nodes and arcs
  are indices into two arenas; the fields of an entry are the values the attachments
  hold for it. A node carries its active flag and its merger count, its time index, its
  object record and its provenance; an arc carries its end points, its active flag and
  its weight. Nothing is ever removed from the arenas.
\<close>

record Node =
  n_active :: bool
  n_count :: nat
  n_timestep :: int
  n_traxel :: Traxel
  n_originated_from :: "nat option"
  n_resolved_to :: "nat list"

record Arc =
  a_source :: nat
  a_target :: nat
  a_active :: bool
  a_distance :: real

record HypothesesGraph =
  properties :: "property set"
  nodes :: "Node list"
  arcs :: "Arc list"

text \<open>
  Modelled from the spec: \<^verbatim>\<open>HypothesesGraph::has_property\<close> lives in
  \<^verbatim>\<open>pgmlink/hypotheses.h\<close>, which is not part of the sources at hand. The graph
  supports typed property attachment: \<open>has_property\<close> tells whether a property map is
  attached.
\<close>

definition has_property :: "HypothesesGraph \<Rightarrow> property \<Rightarrow> bool" where
  "has_property g p = (p \<in> properties g)"

text \<open>
  Modelled from the spec: \<^verbatim>\<open>HypothesesGraph::add\<close>, from the same absent header. It
  attaches a property map and changes nothing else.
\<close>

definition add :: "HypothesesGraph \<Rightarrow> property \<Rightarrow> HypothesesGraph" where
  "add g p = g\<lparr>properties := insert p (properties g)\<rparr>"

subsection \<open>The constructor of MergerResolver\<close>

text \<open>
  The constructor receives a pointer (\<open>None\<close> is the null pointer) and works on the graph
  in place. The model returns the graph as the constructor leaves it together with the
  exception it throws, if any.
\<close>

fun MergerResolver :: "HypothesesGraph option \<Rightarrow> HypothesesGraph option \<times> error option" where
  "MergerResolver None = (None, Some (runtime_error ''HypotesesGraph g_ is a null pointer!''))"
| "MergerResolver (Some g) =
     (let g1 = (if \<not> has_property g merger_resolved_to then add g merger_resolved_to else g)
      in if \<not> has_property g1 node_active2
           then (Some g1, Some (runtime_error ''HypothesesGraph g_ does not have property node_active2!''))
         else if \<not> has_property g1 arc_active
           then (Some g1, Some (runtime_error ''HypothesesGraph g_ does not have property arc_active!''))
         else if \<not> has_property g1 arc_distance
           then (Some g1, Some (runtime_error ''HypothesesGraph g_ does not have property arc_distance!''))
         else
           let g2 = (if \<not> has_property g1 node_originated_from then add g1 node_originated_from else g1)
           in (Some g2, None))"

subsection \<open>collect\_arcs\<close>

text \<open>
  An arc iterator is the list of the arcs it yields before it compares equal to
  \<^verbatim>\<open>lemon::INVALID\<close>. The loop pushes each of them to the back of the accumulator.
  The \<^verbatim>\<open>assert\<close> is compiled out when \<^verbatim>\<open>NDEBUG\<close> is defined, the first argument.
\<close>

fun collect_arcs_loop :: "'a list \<Rightarrow> 'a list \<Rightarrow> 'a list" where
  "collect_arcs_loop [] res = res"
| "collect_arcs_loop (a # arcIt) res = collect_arcs_loop arcIt (res @ [a])"

definition collect_arcs :: "bool \<Rightarrow> 'a list \<Rightarrow> 'a list \<Rightarrow> error + 'a list" where
  "collect_arcs ndebug arcIt res =
     (if \<not> ndebug \<and> length res \<noteq> 0 then Inl assertion_failed
      else Inr (collect_arcs_loop arcIt res))"

subsection \<open>Arcs of a node\<close>

text \<open>
  Modelled from the spec: the iteration over the arcs of a node, restricted to the active
  ones. The active arcs into and out of a node are the indices of these arcs in the
  order of their creation. A graph is well formed when the end points of its arcs are
  nodes.
\<close>

definition active_in_arcs :: "HypothesesGraph \<Rightarrow> nat \<Rightarrow> nat list" where
  "active_in_arcs g v =
     filter (\<lambda>a. a_active (arcs g ! a) \<and> a_target (arcs g ! a) = v) [0..<length (arcs g)]"

definition active_out_arcs :: "HypothesesGraph \<Rightarrow> nat \<Rightarrow> nat list" where
  "active_out_arcs g v =
     filter (\<lambda>a. a_active (arcs g ! a) \<and> a_source (arcs g ! a) = v) [0..<length (arcs g)]"

definition wf_graph :: "HypothesesGraph \<Rightarrow> bool" where
  "wf_graph g =
     list_all (\<lambda>a. a_source a < length (nodes g) \<and> a_target a < length (nodes g)) (arcs g)"

definition arc_weight :: "HypothesesGraph \<Rightarrow> nat \<Rightarrow> real" where
  "arc_weight g a = a_distance (arcs g ! a)"

text \<open>The invariant: no node has more than one active arc in either direction.\<close>

definition max_one_arc :: "HypothesesGraph \<Rightarrow> bool" where
  "max_one_arc g =
     list_all (\<lambda>v. length (active_in_arcs g v) \<le> 1 \<and> length (active_out_arcs g v) \<le> 1)
       [0..<length (nodes g)]"

text \<open>
  Modelled from the spec: \<^verbatim>\<open>MergerResolver::deactivate_arcs\<close>, declared in the header
  and defined elsewhere. Each arc of the list gets the active flag \<open>False\<close>; nothing is
  removed.
\<close>

definition deactivate_arcs :: "HypothesesGraph \<Rightarrow> nat list \<Rightarrow> HypothesesGraph" where
  "deactivate_arcs g as =
     g\<lparr>arcs := map (\<lambda>a. if a \<in> set as then (arcs g ! a)\<lparr>a_active := False\<rparr> else arcs g ! a)
                 [0..<length (arcs g)]\<rparr>"

subsection \<open>The resolvers of ambiguous arcs\<close>

text \<open>
  Modelled from the spec: the rule of the greedy resolver for the active arcs \<open>as\<close> of
  one node in one direction. When there is more than one, the arc of minimum weight is
  kept and the rest is deactivated. Among arcs of the same minimum weight the one
  created first is kept (\<open>arg_min_list\<close> returns the first minimum of the list).
\<close>

definition keep_min :: "HypothesesGraph \<Rightarrow> nat list \<Rightarrow> HypothesesGraph" where
  "keep_min g as =
     (if 1 < length as then deactivate_arcs g (removeAll (arg_min_list (arc_weight g) as) as) else g)"

text \<open>Modelled from the spec: the greedy rule for the incoming arcs of a node.\<close>

definition resolve_in :: "HypothesesGraph \<Rightarrow> nat \<Rightarrow> HypothesesGraph" where
  "resolve_in g v = keep_min g (active_in_arcs g v)"

text \<open>Modelled from the spec: the greedy rule for the outgoing arcs of a node.\<close>

definition resolve_out :: "HypothesesGraph \<Rightarrow> nat \<Rightarrow> HypothesesGraph" where
  "resolve_out g v = keep_min g (active_out_arcs g v)"

text \<open>
  Modelled from the spec: the greedy resolver at one node, the incoming arcs before the
  outgoing arcs.
\<close>

definition greedy_step :: "nat \<Rightarrow> HypothesesGraph \<Rightarrow> HypothesesGraph" where
  "greedy_step v g = resolve_out (resolve_in g v) v"

text \<open>
  Modelled from the spec: \<^verbatim>\<open>ResolveAmbiguousArcsGreedy::operator()\<close>, declared in the
  header and defined elsewhere. For every node with more than one active incoming
  (respectively outgoing) arc, the arc of minimum weight is kept and the rest is
  deactivated. The nodes are taken in the order of their creation.
\<close>

definition ResolveAmbiguousArcsGreedy :: "HypothesesGraph \<Rightarrow> error + HypothesesGraph" where
  "ResolveAmbiguousArcsGreedy g = Inr (fold greedy_step [0..<length (nodes g)] g)"

text \<open>
  Modelled from the spec: \<^verbatim>\<open>ReasonerMaxOneArc::formulate\<close>, declared in the header and
  defined elsewhere. The variables of the optimisation are the active arcs.
\<close>

definition formulate :: "HypothesesGraph \<Rightarrow> nat list" where
  "formulate g = filter (\<lambda>a. a_active (arcs g ! a)) [0..<length (arcs g)]"

text \<open>
  Modelled from the spec: the constraint of the exact resolver. A selection of arcs is
  admissible when each node has at most one selected arc in each direction.
\<close>

definition admissible :: "HypothesesGraph \<Rightarrow> nat list \<Rightarrow> bool" where
  "admissible g sel =
     list_all (\<lambda>v. length (filter (\<lambda>a. a_target (arcs g ! a) = v) sel) \<le> 1
                 \<and> length (filter (\<lambda>a. a_source (arcs g ! a) = v) sel) \<le> 1)
       [0..<length (nodes g)]"

text \<open>Modelled from the spec: the cost of a selection, the sum of the weights of its arcs.\<close>

definition total_weight :: "HypothesesGraph \<Rightarrow> nat list \<Rightarrow> real" where
  "total_weight g sel = sum_list (map (arc_weight g) sel)"

text \<open>
  Modelled from the spec: \<^verbatim>\<open>ReasonerMaxOneArc::infer\<close>, declared in the header and
  defined elsewhere. An exhaustive search for an admissible selection of minimum total
  weight, the first one found among those of minimum weight. The empty selection is
  admissible, so the search always finds one.
\<close>

definition infer :: "HypothesesGraph \<Rightarrow> nat list" where
  "infer g = arg_min_list (total_weight g) (filter (admissible g) (subseqs (formulate g)))"

text \<open>
  Modelled from the spec: \<^verbatim>\<open>ReasonerMaxOneArc::conclude\<close>, declared in the header and
  defined elsewhere. The selected arcs are written back as active, all others as
  inactive.
\<close>

definition conclude :: "HypothesesGraph \<Rightarrow> nat list \<Rightarrow> HypothesesGraph" where
  "conclude g sel =
     g\<lparr>arcs := map (\<lambda>a. (arcs g ! a)\<lparr>a_active := (a \<in> set sel)\<rparr>) [0..<length (arcs g)]\<rparr>"

text \<open>
  Modelled from the spec: \<^verbatim>\<open>ResolveAmbiguousArcsPgm::operator()\<close>, declared in the
  header and defined elsewhere: the three steps of the reasoner in turn.
\<close>

definition ResolveAmbiguousArcsPgm :: "HypothesesGraph \<Rightarrow> error + HypothesesGraph" where
  "ResolveAmbiguousArcsPgm g = Inr (conclude g (infer g))"

text \<open>
  What the greedy rule promises about the arcs \<open>as\<close> of one node in one direction,
  between a graph \<open>g\<close> and a later graph \<open>g'\<close>: when there is more than one of them,
  exactly one is still active in \<open>g'\<close>, and no arc of \<open>as\<close> is lighter than it.
  \<open>greedy_claim\<close> asks this of every node and both directions.
\<close>

definition keeps_one_min :: "HypothesesGraph \<Rightarrow> HypothesesGraph \<Rightarrow> nat list \<Rightarrow> bool" where
  "keeps_one_min g g' as =
     (if 1 < length as
      then (case filter (\<lambda>a. a_active (arcs g' ! a)) as of
              [m] \<Rightarrow> list_all (\<lambda>a. arc_weight g m \<le> arc_weight g a) as
            | _ \<Rightarrow> False)
      else True)"

definition greedy_claim :: "HypothesesGraph \<Rightarrow> HypothesesGraph \<Rightarrow> bool" where
  "greedy_claim g g' =
     list_all (\<lambda>v. keeps_one_min g g' (active_in_arcs g v) \<and> keeps_one_min g g' (active_out_arcs g v))
       [0..<length (nodes g)]"

subsection \<open>resolve\_mergers\<close>

text \<open>
  The strategies are functions: a feature extractor takes the object record of the
  merger, the number of objects in it and the highest identifier in use, and returns the
  records of the new objects or fails; a distance takes two object records.
\<close>

type_synonym FeatureExtractor = "Traxel \<Rightarrow> nat \<Rightarrow> nat \<Rightarrow> error + Traxel list"

type_synonym Distance = "Traxel \<Rightarrow> Traxel \<Rightarrow> real"

type_synonym ResolveAmbiguousArcs = "HypothesesGraph \<Rightarrow> error + HypothesesGraph"

text \<open>
  Modelled from the spec: \<^verbatim>\<open>MergerResolver::get_max_id\<close>, declared in the header and
  defined elsewhere. The highest identifier among the nodes of a time index, active or
  not (0 when there is none).
\<close>

definition get_max_id :: "HypothesesGraph \<Rightarrow> int \<Rightarrow> nat" where
  "get_max_id g ts =
     fold max (map (\<lambda>n. Id (n_traxel n)) (filter (\<lambda>n. n_timestep n = ts) (nodes g))) 0"

text \<open>
  Modelled from the spec: \<^verbatim>\<open>MergerResolver::add_arcs_for_replacement_node\<close>, declared
  in the header and defined elsewhere. For each collected incoming arc of the merger a
  new active arc from its source to the new node, for each collected outgoing arc a new
  active arc from the new node to its target, weighted by the distance strategy. The
  end points of the collected arcs are looked up among the nodes: they are nodes in a
  well-formed graph.
\<close>

definition add_arcs_for_replacement_node ::
  "Distance \<Rightarrow> HypothesesGraph \<Rightarrow> nat \<Rightarrow> Traxel \<Rightarrow> nat list \<Rightarrow> nat list \<Rightarrow> HypothesesGraph" where
  "add_arcs_for_replacement_node distance g node trax src dest =
     g\<lparr>arcs := arcs g
        @ map (\<lambda>a. \<lparr>a_source = a_source (arcs g ! a), a_target = node, a_active = True,
                    a_distance = distance (n_traxel (nodes g ! a_source (arcs g ! a))) trax\<rparr>) src
        @ map (\<lambda>a. \<lparr>a_source = node, a_target = a_target (arcs g ! a), a_active = True,
                    a_distance = distance trax (n_traxel (nodes g ! a_target (arcs g ! a)))\<rparr>) dest\<rparr>"

text \<open>
  Modelled from the spec: the node created for a new object record of the merger \<open>m\<close>.
  It is at the time index of the merger, active, with merger count 1 and the identifier
  of the merger as its origin.
\<close>

definition new_node :: "Node \<Rightarrow> Traxel \<Rightarrow> Node" where
  "new_node m trax =
     \<lparr>n_active = True, n_count = 1, n_timestep = n_timestep m, n_traxel = trax,
      n_originated_from = Some (Id (n_traxel m)), n_resolved_to = []\<rparr>"

text \<open>
  Modelled from the spec: \<^verbatim>\<open>MergerResolver::refine_node\<close>, declared in the header and
  defined elsewhere (steps 2 to 6 of the algorithm). The active arcs of the merger are
  collected with \<open>collect_arcs\<close>; the extractor is called with the object record, the
  merger count and the highest identifier of the time index, and its failure ends the
  call; one node per new record is appended; the candidate arcs are added for each new
  node; then the collected arcs and the merger are deactivated and the identifiers of
  the new records are recorded on the merger.
\<close>

definition refine_node ::
  "FeatureExtractor \<Rightarrow> Distance \<Rightarrow> HypothesesGraph \<Rightarrow> nat \<Rightarrow> error + HypothesesGraph" where
  "refine_node extractor distance g node =
     (let m = nodes g ! node in
      case collect_arcs False (active_in_arcs g node) [] of Inl e \<Rightarrow> Inl e | Inr sources \<Rightarrow>
      case collect_arcs False (active_out_arcs g node) [] of Inl e \<Rightarrow> Inl e | Inr targets \<Rightarrow>
      case extractor (n_traxel m) (n_count m) (get_max_id g (n_timestep m)) of Inl e \<Rightarrow> Inl e | Inr ft \<Rightarrow>
        let first = length (nodes g);
            g1 = g\<lparr>nodes := nodes g @ map (new_node m) ft\<rparr>;
            g2 = fold (\<lambda>j g. add_arcs_for_replacement_node distance g (first + j) (ft ! j) sources targets)
                   [0..<length ft] g1;
            g3 = deactivate_arcs (deactivate_arcs g2 sources) targets
        in Inr (g3\<lparr>nodes := (nodes g3)[node := m\<lparr>n_active := False, n_resolved_to := map Id ft\<rparr>]\<rparr>))"

text \<open>
  Modelled from the spec: the nodes to resolve (step 1 of the algorithm), the active
  nodes with a merger count of at least 2, in the order of their creation.
\<close>

definition mergers :: "HypothesesGraph \<Rightarrow> nat list" where
  "mergers g = filter (\<lambda>v. n_active (nodes g ! v) \<and> 2 \<le> n_count (nodes g ! v)) [0..<length (nodes g)]"

text \<open>
  Modelled from the spec: the loop over the mergers. Each is refined in turn on the graph
  that the previous ones have left; a failure ends the call.
\<close>

fun refine_nodes ::
  "FeatureExtractor \<Rightarrow> Distance \<Rightarrow> nat list \<Rightarrow> HypothesesGraph \<Rightarrow> error + HypothesesGraph" where
  "refine_nodes extractor distance [] g = Inr g"
| "refine_nodes extractor distance (v # vs) g =
     (case refine_node extractor distance g v of
        Inl e \<Rightarrow> Inl e
      | Inr g' \<Rightarrow> refine_nodes extractor distance vs g')"

text \<open>
  Modelled from the spec: \<^verbatim>\<open>MergerResolver::resolve_mergers\<close>, declared in the header
  and defined elsewhere (steps 1, 7 and 8 of the algorithm). The mergers are refined;
  then the chosen resolver of ambiguous arcs runs over the whole graph. The declaration
  has no parameter for the resolver: it is the first argument here.
\<close>

definition resolve_mergers ::
  "ResolveAmbiguousArcs \<Rightarrow> FeatureExtractor \<Rightarrow> Distance \<Rightarrow> HypothesesGraph \<Rightarrow> error + HypothesesGraph" where
  "resolve_mergers resolver extractor distance g =
     (case refine_nodes extractor distance (mergers g) g of
        Inl e \<Rightarrow> Inl e
      | Inr g' \<Rightarrow> resolver g')"

text \<open>
  The identifiers of a graph are unique within each time index. The offspring of a node
  \<open>v\<close> of \<open>g\<close> in a later graph \<open>g'\<close> are the nodes that \<open>g'\<close> has in addition to
  those of \<open>g\<close>, that are active, at the time index of \<open>v\<close>, and have the identifier of
  \<open>v\<close> as their origin.
\<close>

definition unique_ids :: "HypothesesGraph \<Rightarrow> bool" where
  "unique_ids g = distinct (map (\<lambda>n. (n_timestep n, Id (n_traxel n))) (nodes g))"

definition is_offspring :: "int \<Rightarrow> nat \<Rightarrow> Node \<Rightarrow> bool" where
  "is_offspring ts ident n = (n_active n \<and> n_timestep n = ts \<and> n_originated_from n = Some ident)"

definition offspring :: "HypothesesGraph \<Rightarrow> HypothesesGraph \<Rightarrow> nat \<Rightarrow> Node list" where
  "offspring g g' v =
     filter (is_offspring (n_timestep (nodes g ! v)) (Id (n_traxel (nodes g ! v))))
       (drop (length (nodes g)) (nodes g'))"

subsection \<open>Concrete inputs\<close>

text \<open>A graph with no attachment at all, and one with the three required attachments.\<close>

definition g_bare :: HypothesesGraph where
  "g_bare = \<lparr>properties = {}, nodes = [], arcs = []\<rparr>"

definition g_ready :: HypothesesGraph where
  "g_ready = \<lparr>properties = {node_active2, arc_active, arc_distance}, nodes = [], arcs = []\<rparr>"



definition data_1x2 :: "double Mat" where
  "data_1x2 = \<lparr>n_rows = 1, cols = [[Finite 1], [Finite 3]]\<rparr>"


definition centers_1x2 :: "double Mat" where
  "centers_1x2 = \<lparr>n_rows = 1, cols = [[Finite 7], [Finite 7]]\<rparr>"




text \<open>
  The scenario of the specification: a merger of two objects at time 1 between a node X
  at time 0 and a node Y at time 2. The extractor places the new objects at the
  positions \<open>0\<close> and \<open>4\<close>, X is at \<open>0\<close> and Y at \<open>4\<close>; the distance is the absolute
  difference of the positions.
\<close>

definition position :: "Traxel \<Rightarrow> real" where
  "position t = (case map_of (features t) ''com'' of Some (x # xs) \<Rightarrow> x | _ \<Rightarrow> 0)"

definition position_distance :: Distance where
  "position_distance a b = \<bar>position a - position b\<bar>"

definition spread_extractor :: FeatureExtractor where
  "spread_extractor trax n max_id =
     Inr (map (\<lambda>j. \<lparr>Id = max_id + 1 + j, Timestep = Timestep trax,
                     features = [(''com'', [4 * real j])]\<rparr>) [0..<n])"

definition plain_node :: "int \<Rightarrow> nat \<Rightarrow> nat \<Rightarrow> real \<Rightarrow> Node" where
  "plain_node ts ident count pos =
     \<lparr>n_active = True, n_count = count, n_timestep = ts,
      n_traxel = \<lparr>Id = ident, Timestep = ts, features = [(''com'', [pos])]\<rparr>,
      n_originated_from = None, n_resolved_to = []\<rparr>"

definition g_scenario :: HypothesesGraph where
  "g_scenario =
     \<lparr>properties = {node_active2, arc_active, arc_distance, node_traxel, node_timestep},
      nodes = [plain_node 0 1 1 0, plain_node 1 1 2 2, plain_node 2 1 1 4],
      arcs = [\<lparr>a_source = 0, a_target = 1, a_active = True, a_distance = 2\<rparr>,
              \<lparr>a_source = 1, a_target = 2, a_active = True, a_distance = 2\<rparr>]\<rparr>"

text \<open>
  The scenario after the merger has been expanded, and after the ambiguous arcs have
  been resolved: the two cross arcs are deactivated.
\<close>

definition g_expanded :: HypothesesGraph where
  "g_expanded =
     \<lparr>properties = {node_active2, arc_active, arc_distance, node_traxel, node_timestep},
      nodes = [plain_node 0 1 1 0,
               (plain_node 1 1 2 2)\<lparr>n_active := False, n_resolved_to := [2, 3]\<rparr>,
               plain_node 2 1 1 4,
               (plain_node 1 2 1 0)\<lparr>n_originated_from := Some 1\<rparr>,
               (plain_node 1 3 1 4)\<lparr>n_originated_from := Some 1\<rparr>],
      arcs = [\<lparr>a_source = 0, a_target = 1, a_active = False, a_distance = 2\<rparr>,
              \<lparr>a_source = 1, a_target = 2, a_active = False, a_distance = 2\<rparr>,
              \<lparr>a_source = 0, a_target = 3, a_active = True, a_distance = 0\<rparr>,
              \<lparr>a_source = 3, a_target = 2, a_active = True, a_distance = 4\<rparr>,
              \<lparr>a_source = 0, a_target = 4, a_active = True, a_distance = 4\<rparr>,
              \<lparr>a_source = 4, a_target = 2, a_active = True, a_distance = 0\<rparr>]\<rparr>"

definition g_resolved :: HypothesesGraph where
  "g_resolved = deactivate_arcs g_expanded [3, 4]"

text \<open>
  A fork: node 0 has arcs to node 1 (weight 1) and to node 3 (weight 1/2), node 2 has an
  arc to node 1 (weight 2).
\<close>

definition g_fork :: HypothesesGraph where
  "g_fork =
     \<lparr>properties = {node_active2, arc_active, arc_distance, node_traxel, node_timestep},
      nodes = [plain_node 0 1 1 0, plain_node 1 1 1 1, plain_node 0 2 1 3, plain_node 1 2 1 (1/2)],
      arcs = [\<lparr>a_source = 0, a_target = 1, a_active = True, a_distance = 1\<rparr>,
              \<lparr>a_source = 2, a_target = 1, a_active = True, a_distance = 2\<rparr>,
              \<lparr>a_source = 0, a_target = 3, a_active = True, a_distance = 1/2\<rparr>]\<rparr>"

section \<open>Properties\<close>

subsection \<open>The constructor\<close>

lemma MergerResolver_null: "MergerResolver None = (None, Some (runtime_error ''HypotesesGraph g_ is a null pointer!''))"
  by simp

lemma MergerResolver_success:
  assumes "has_property g node_active2" "has_property g arc_active" "has_property g arc_distance"
  shows "MergerResolver (Some g) =
           (Some (g\<lparr>properties := properties g \<union> {merger_resolved_to, node_originated_from}\<rparr>), None)"
  using assms by (auto simp: Let_def has_property_def add_def insert_absorb insert_commute)

lemma MergerResolver_failure:
  assumes "\<not> (has_property g node_active2 \<and> has_property g arc_active \<and> has_property g arc_distance)"
  shows "\<exists>msg. MergerResolver (Some g) =
           (Some (g\<lparr>properties := insert merger_resolved_to (properties g)\<rparr>), Some (runtime_error msg))"
  using assms by (auto simp: Let_def has_property_def add_def insert_absorb)

text \<open>
  C3. A construction that fails for a missing required attachment does not always leave
  the graph as it was: \<^verbatim>\<open>merger_resolved_to\<close> is attached before the first required
  attachment is looked for. On a graph without any attachment the constructor throws for
  \<^verbatim>\<open>node_active2\<close> and the graph has gained \<^verbatim>\<open>merger_resolved_to\<close>.
\<close>

theorem MergerResolver_failure_changes_graph:
  "MergerResolver (Some g_bare) =
     (Some (g_bare\<lparr>properties := {merger_resolved_to}\<rparr>),
      Some (runtime_error ''HypothesesGraph g_ does not have property node_active2!''))
   \<and> g_bare\<lparr>properties := {merger_resolved_to}\<rparr> \<noteq> g_bare"
  by (simp add: g_bare_def has_property_def add_def)

text \<open>
  C4. The constructor throws exactly when the pointer is null or one of
  \<^verbatim>\<open>node_active2\<close>, \<^verbatim>\<open>arc_active\<close>, \<^verbatim>\<open>arc_distance\<close> is not attached. The two
  provenance attachments play no part in that; when the constructor succeeds it has
  attached both (and changed nothing else), so both are present afterwards.
\<close>

theorem MergerResolver_throws_iff:
  "(snd (MergerResolver gp) \<noteq> None \<longleftrightarrow>
      gp = None \<or> (\<exists>g. gp = Some g \<and> (\<not> has_property g node_active2 \<or> \<not> has_property g arc_active
                                      \<or> \<not> has_property g arc_distance)))
   \<and> (snd (MergerResolver gp) = None \<longrightarrow>
        (\<exists>g g'. gp = Some g \<and> fst (MergerResolver gp) = Some g'
            \<and> g' = g\<lparr>properties := properties g \<union> {merger_resolved_to, node_originated_from}\<rparr>
            \<and> has_property g' merger_resolved_to \<and> has_property g' node_originated_from))"
proof (cases gp)
  case None
  then show ?thesis by simp
next
  case (Some g)
  show ?thesis
  proof (cases "has_property g node_active2 \<and> has_property g arc_active \<and> has_property g arc_distance")
    case True
    then have "MergerResolver (Some g) =
        (Some (g\<lparr>properties := properties g \<union> {merger_resolved_to, node_originated_from}\<rparr>), None)"
      by (intro MergerResolver_success) simp_all
    with True Some show ?thesis by (simp del: MergerResolver.simps add: has_property_def)
  next
    case False
    from MergerResolver_failure [OF False] obtain msg where
      "MergerResolver (Some g) =
         (Some (g\<lparr>properties := insert merger_resolved_to (properties g)\<rparr>), Some (runtime_error msg))"
      by blast
    with False Some show ?thesis by (auto simp del: MergerResolver.simps)
  qed
qed

text \<open>
  C4 on a graph with the three required attachments and none of the two others, and on a
  graph without any attachment.
\<close>

theorem MergerResolver_throws_iff_witness:
  "snd (MergerResolver (Some g_ready)) = None
   \<and> \<not> has_property g_ready merger_resolved_to \<and> \<not> has_property g_ready node_originated_from
   \<and> (\<exists>g'. fst (MergerResolver (Some g_ready)) = Some g'
         \<and> has_property g' merger_resolved_to \<and> has_property g' node_originated_from)
   \<and> snd (MergerResolver (Some g_bare)) \<noteq> None"
proof -
  have ok: "snd (MergerResolver (Some g_ready)) = None"
    by (simp add: g_ready_def has_property_def add_def)
  have bad: "\<not> has_property g_bare node_active2"
    by (simp add: g_bare_def has_property_def)
  from MergerResolver_throws_iff [of "Some g_ready"] ok
  have "\<exists>g'. fst (MergerResolver (Some g_ready)) = Some g'
         \<and> has_property g' merger_resolved_to \<and> has_property g' node_originated_from"
    by blast
  moreover from MergerResolver_throws_iff [of "Some g_bare"] bad
  have "snd (MergerResolver (Some g_bare)) \<noteq> None"
    by blast
  moreover have "\<not> has_property g_ready merger_resolved_to \<and> \<not> has_property g_ready node_originated_from"
    by (simp add: g_ready_def has_property_def)
  ultimately show ?thesis using ok by blast
qed

subsection \<open>collect\_arcs\<close>

lemma collect_arcs_loop_append: "collect_arcs_loop arcIt res = res @ arcIt"
  by (induction arcIt arbitrary: res) simp_all

lemma collect_arcs_ndebug: "collect_arcs True arcIt res = Inr (res @ arcIt)"
  by (simp add: collect_arcs_def collect_arcs_loop_append)

lemma collect_arcs_empty: "collect_arcs ndebug arcIt [] = Inr arcIt"
  by (simp add: collect_arcs_def collect_arcs_loop_append)

text \<open>
  C9. With the assertion compiled in, \<open>collect_arcs\<close> returns only when the accumulator
  was empty on entry, and then the accumulator holds exactly the arcs the iterator
  yields, in the order of the iteration; a populated accumulator stops at the assertion.
  Started on an empty accumulator it returns the arcs of the iterator in either build.
\<close>

theorem collect_arcs_exact:
  "(collect_arcs False arcIt res = Inr out \<longleftrightarrow> res = [] \<and> out = arcIt)
   \<and> (res \<noteq> [] \<longrightarrow> collect_arcs False arcIt res = Inl assertion_failed)
   \<and> collect_arcs ndebug arcIt [] = Inr arcIt"
  by (auto simp: collect_arcs_def collect_arcs_loop_append)

text \<open>C9 on an iterator of three arcs, with an empty and with a populated accumulator.\<close>

theorem collect_arcs_exact_witness:
  "collect_arcs False [3, 1, 2 :: nat] [] = Inr [3, 1, 2]
   \<and> [7 :: nat] \<noteq> [] \<and> collect_arcs False [3, 1, 2] [7 :: nat] = Inl assertion_failed"
proof -
  have ne: "[7 :: nat] \<noteq> []" by simp
  from collect_arcs_exact [of "[3, 1, 2 :: nat]" "[]" "[3, 1, 2]"]
  have "collect_arcs False [3, 1, 2 :: nat] [] = Inr [3, 1, 2]" by simp
  moreover from collect_arcs_exact [of "[3, 1, 2 :: nat]" "[7]"] ne
  have "collect_arcs False [3, 1, 2] [7 :: nat] = Inl assertion_failed" by blast
  ultimately show ?thesis by simp
qed

subsection \<open>Matrices and lists\<close>

lemma n_cols_update [simp]: "n_cols (M\<lparr>cols := (cols M)[i := c]\<rparr>) = n_cols M"
  by (simp add: n_cols_def)

lemma n_cols_zeros [simp]: "n_cols (zeros M) = n_cols M"
  by (simp add: n_cols_def zeros_def)

lemma n_rows_zeros [simp]: "n_rows (zeros M) = n_rows M"
  by (simp add: zeros_def)

lemma list_all_upt: "list_all P [0..<n] \<longleftrightarrow> (\<forall>i<n. P i)"
  by (auto simp: list_all_iff)

lemma list_all_take_nth: "n \<le> length xs \<Longrightarrow> list_all P (take n xs) \<longleftrightarrow> (\<forall>i<n. P (xs ! i))"
  by (auto simp: list_all_length)

subsection \<open>feature\_array\_to\_arma\_mat\<close>

lemma wrap_int_id: "0 \<le> i \<Longrightarrow> i < 2 ^ 31 \<Longrightarrow> wrap_int i = i"
  by (simp add: wrap_int_def)

lemma to_int_id: "n < 2 ^ 31 \<Longrightarrow> to_int n = int n"
  by (simp add: to_int_def wrap_int_id)

lemma int_less_2p31: "n < 2 ^ 31 \<Longrightarrow> int n < 2 ^ 31"
  by simp

lemma fold_update_nth:
  "length (fold (\<lambda>c cs. cs[c := f c]) counts xs) = length xs
   \<and> (i < length xs \<longrightarrow> fold (\<lambda>c cs. cs[c := f c]) counts xs ! i = (if i \<in> set counts then f i else xs ! i))"
proof (induction counts arbitrary: xs)
  case Nil
  then show ?case by simp
next
  case (Cons c counts)
  from Cons.IH [of "xs[c := f c]"] show ?case by (auto simp: nth_list_update)
qed

lemma feature_array_to_arma_mat_loop_fold:
  assumes "list_all (\<lambda>count. count * stepSize + stepSize \<le> length src \<and> count < n_cols out) counts"
      and "n_rows out = stepSize"
  shows "feature_array_to_arma_mat_loop conv src stepSize counts out =
           Inr (out\<lparr>cols := fold (\<lambda>c cs. cs[c := map conv (take stepSize (drop (c * stepSize) src))])
                                counts (cols out)\<rparr>)"
  using assms
proof (induction counts arbitrary: out)
  case Nil
  then show ?case by simp
next
  case (Cons c counts)
  let ?out = "out\<lparr>cols := (cols out)[c := map conv (take stepSize (drop (c * stepSize) src))]\<rparr>"
  have 1: "list_all (\<lambda>count. count * stepSize + stepSize \<le> length src \<and> count < n_cols ?out) counts"
    using Cons.prems by simp
  have 2: "n_rows ?out = stepSize" using Cons.prems by simp
  from Cons.IH [OF 1 2] Cons.prems show ?case by simp
qed

lemma feature_array_to_arma_mat_loop_all:
  assumes "length src = stepSize * n_cols out" and "n_rows out = stepSize"
  shows "feature_array_to_arma_mat_loop conv src stepSize [0..<n_cols out] out =
           Inr (out\<lparr>cols := map (\<lambda>c. map conv (take stepSize (drop (c * stepSize) src))) [0..<n_cols out]\<rparr>)"
proof -
  let ?f = "\<lambda>c. map conv (take stepSize (drop (c * stepSize) src))"
  have b: "\<And>c. c < n_cols out \<Longrightarrow> c * stepSize + stepSize \<le> stepSize * n_cols out"
  proof -
    fix c assume "c < n_cols out"
    then have "Suc c \<le> n_cols out" by simp
    then have "stepSize * Suc c \<le> stepSize * n_cols out" by (rule mult_le_mono2)
    then show "c * stepSize + stepSize \<le> stepSize * n_cols out" by (simp add: mult.commute)
  qed
  have 1: "list_all (\<lambda>count. count * stepSize + stepSize \<le> length src \<and> count < n_cols out) [0..<n_cols out]"
    using b assms(1) by (simp add: list_all_upt)
  have "fold (\<lambda>c cs. cs[c := ?f c]) [0..<n_cols out] (cols out) = map ?f [0..<n_cols out]"
    using fold_update_nth [of ?f "[0..<n_cols out]" "cols out"]
    by (intro nth_equalityI) (simp_all add: n_cols_def)
  with feature_array_to_arma_mat_loop_fold [OF 1 assms(2), of conv] show ?thesis by simp
qed

lemma feature_array_to_arma_mat_in_range:
  assumes "n_rows out * n_cols out < 2 ^ 31" and "n_rows out < 2 ^ 31" and "n_cols out < 2 ^ 31"
      and "length src < 2 ^ 31"
  shows "feature_array_to_arma_mat conv src out =
           (if length src \<noteq> n_rows out * n_cols out
            then Inl (range_error ''Source vector dimension and matrix dimensions do not agree!'')
            else Inr (out\<lparr>cols := map (\<lambda>c. map conv (take (n_rows out) (drop (c * n_rows out) src)))
                                      [0..<n_cols out]\<rparr>))"
proof -
  have p: "int_times (int (n_rows out)) (int (n_cols out)) = int (n_rows out * n_cols out)"
  proof -
    have lt: "int (n_rows out * n_cols out) < 2 ^ 31" by (rule int_less_2p31 [OF assms(1)])
    have "int_times (int (n_rows out)) (int (n_cols out)) = wrap_int (int (n_rows out) * int (n_cols out))"
      by (simp add: int_times_def)
    also have "int (n_rows out) * int (n_cols out) = int (n_rows out * n_cols out)" by simp
    also have "wrap_int (int (n_rows out * n_cols out)) = int (n_rows out * n_cols out)"
      by (rule wrap_int_id [OF _ lt]) (rule of_nat_0_le_iff)
    finally show ?thesis .
  qed
  show ?thesis
  proof (cases "length src = n_rows out * n_cols out")
    case True
    from feature_array_to_arma_mat_loop_all [of src "n_rows out" out conv] True
    show ?thesis
      using assms by (simp add: feature_array_to_arma_mat_def p to_int_id Let_def del: of_nat_mult)
  next
    case False
    then show ?thesis
      using assms by (simp add: feature_array_to_arma_mat_def p to_int_id Let_def del: of_nat_mult)
  qed
qed

subsection \<open>get\_centers: one cluster\<close>

lemma map2_dplus_Finite: "map2 dplus (map Finite a) (map Finite b) = map Finite (map2 (+) a b)"
  by (auto simp: zip_map_map)

lemma foldl_map2_Finite:
  "foldl (map2 dplus) (map Finite acc) (map (map Finite) xss) = map Finite (foldl (map2 (+)) acc xss)"
proof (induction xss arbitrary: acc)
  case Nil
  then show ?case by simp
next
  case (Cons c xss)
  have "foldl (map2 dplus) (map Finite acc) (map (map Finite) (c # xss))
        = foldl (map2 dplus) (map Finite (map2 (+) acc c)) (map (map Finite) xss)"
    by (simp only: list.map foldl.simps map2_dplus_Finite)
  also have "\<dots> = map Finite (foldl (map2 (+)) (map2 (+) acc c) xss)"
    by (rule Cons.IH)
  finally show ?case by simp
qed

lemma foldl_map2_plus_length:
  assumes "list_all (\<lambda>c. length c = length acc) xss"
  shows "length (foldl (map2 (+)) acc xss) = length (acc :: real list)"
  using assms
proof (induction xss arbitrary: acc)
  case Nil
  then show ?case by simp
next
  case (Cons c xss)
  have len: "length (map2 (+) acc c) = length acc" using Cons.prems by simp
  have "list_all (\<lambda>d. length d = length (map2 (+) acc c)) xss" using Cons.prems len by simp
  from Cons.IH [OF this] len show ?case by simp
qed

lemma foldl_map2_plus_nth:
  assumes "list_all (\<lambda>c. length c = length acc) xss" "r < length acc"
  shows "foldl (map2 (+)) acc xss ! r = (acc ! r :: real) + (\<Sum>c\<leftarrow>xss. c ! r)"
  using assms
proof (induction xss arbitrary: acc)
  case Nil
  then show ?case by simp
next
  case (Cons c xss)
  have len: "length (map2 (+) acc c) = length acc" using Cons.prems by simp
  have "list_all (\<lambda>d. length d = length (map2 (+) acc c)) xss" using Cons.prems len by simp
  from Cons.IH [OF this] Cons.prems len show ?case by simp
qed

lemma get_centers_sum_single:
  assumes "list_all (\<lambda>n. n < length labels \<and> labels ! n = 0 \<and> length (cols data ! n) = length acc) ns"
      and "0 < length cs"
  shows "get_centers_sum data labels ns (cs, \<lparr>n_rows = R, cols = [acc]\<rparr>) =
         Inr (cs[0 := cs ! 0 + int (length ns)],
              \<lparr>n_rows = R, cols = [foldl (map2 dplus) acc (map (\<lambda>n. cols data ! n) ns)]\<rparr>)"
  using assms
proof (induction ns arbitrary: cs acc)
  case Nil
  then show ?case by simp
next
  case (Cons n ns)
  let ?acc = "map2 dplus acc (cols data ! n)"
  have 1: "list_all (\<lambda>n. n < length labels \<and> labels ! n = 0 \<and> length (cols data ! n) = length ?acc) ns"
    using Cons.prems by simp
  have 2: "0 < length (cs[0 := cs ! 0 + 1])" using Cons.prems by simp
  show ?case using Cons.prems Cons.IH [OF 1 2]
    by (simp add: n_cols_def col_plus_def add.assoc)
qed

lemma get_centers_divide_single:
  "get_centers_divide [0..<1] cs \<lparr>n_rows = R, cols = [acc]\<rparr> =
     Inr \<lparr>n_rows = R, cols = [map (\<lambda>x. ddiv_int x (cs ! 0)) acc]\<rparr>"
  by (simp add: n_cols_def)

lemma map_nth_cols: "map (\<lambda>n. xs ! n) [0..<length xs] = xs"
  by (rule map_nth)

lemma get_centers_mean:
  assumes "xss \<noteq> []" and "list_all (\<lambda>c. length c = R) xss"
      and "length xss \<le> length labels" and "list_all (\<lambda>l. l < 1) labels"
      and "n_cols centers = 1" and "n_rows centers = R"
  shows "get_centers \<lparr>n_rows = R, cols = map (map Finite) xss\<rparr> labels centers 1 =
           Inr (centers\<lparr>cols := [map Finite (arithmetic_mean R xss)]\<rparr>)"
proof -
  let ?data = "\<lparr>n_rows = R, cols = map (map Finite) xss\<rparr>"
  let ?N = "length xss"
  have z: "zeros centers = \<lparr>n_rows = R, cols = [map Finite (replicate R 0)]\<rparr>"
    using assms(5,6) by (cases centers) (simp add: zeros_def n_cols_def)
  have lens: "\<And>n. n < ?N \<Longrightarrow> length (xss ! n) = R"
    using assms(2) by (simp add: list_all_length)
  have labs: "\<And>n. n < ?N \<Longrightarrow> n < length labels \<and> labels ! n = 0"
    using assms(3,4) by (auto simp: list_all_length)
  have pre: "list_all (\<lambda>n. n < length labels \<and> labels ! n = 0
                \<and> length (cols ?data ! n) = length (map Finite (replicate R 0))) [0..<?N]"
    using lens labs by (simp add: list_all_iff)
  have colsd: "map ((!) (map (map Finite) xss)) [0..<?N] = map (map Finite) xss"
    using map_nth [of "map (map Finite) xss"] by simp
  have fm: "foldl (map2 dplus) (replicate R (Finite 0)) (map (map Finite) xss)
              = map Finite (foldl (map2 (+)) (replicate R 0) xss)"
    using foldl_map2_Finite [of "replicate R 0" xss] by simp
  have sum: "get_centers_sum ?data labels [0..<n_cols ?data] (replicate (nat 1) 0, zeros centers) =
               Inr ([int ?N], \<lparr>n_rows = R, cols = [map Finite (foldl (map2 (+)) (replicate R 0) xss)]\<rparr>)"
    using get_centers_sum_single [OF pre, of "[0]" R]
    by (simp add: z n_cols_def colsd fm)
  have acc: "list_all (\<lambda>c. length c = length (replicate R (0::real))) xss"
    using assms(2) by simp
  have fold: "foldl (map2 (+)) (replicate R 0) xss = map (\<lambda>r. \<Sum>c\<leftarrow>xss. c ! r) [0..<R]"
    using foldl_map2_plus_nth [OF acc] foldl_map2_plus_length [OF acc] by (intro nth_equalityI) simp_all
  have N0: "int ?N \<noteq> 0" using assms(1) by simp
  let ?S = "\<lparr>n_rows = R, cols = [map Finite (foldl (map2 (+)) (replicate R 0) xss)]\<rparr>"
  have "get_centers ?data labels centers 1 = get_centers_divide [0..<nat 1] [int ?N] ?S"
    unfolding get_centers_def sum by simp
  also have "\<dots> = Inr \<lparr>n_rows = R, cols = [map (\<lambda>x. ddiv_int x ([int ?N] ! 0)) (map Finite (foldl (map2 (+)) (replicate R 0) xss))]\<rparr>"
    using get_centers_divide_single [of "[int ?N]" R] by (simp only: nat_1 One_nat_def)
  also have "map (\<lambda>x. ddiv_int x ([int ?N] ! 0)) (map Finite (foldl (map2 (+)) (replicate R 0) xss))
             = map (\<lambda>x. ddiv_int x (int ?N)) (map Finite (foldl (map2 (+)) (replicate R 0) xss))"
    by simp
  also have "map (\<lambda>x. ddiv_int x (int ?N)) (map Finite (foldl (map2 (+)) (replicate R 0) xss))
             = map Finite (arithmetic_mean R xss)"
    using N0 by (simp add: fold arithmetic_mean_def)
  also have "\<lparr>n_rows = R, cols = [map Finite (arithmetic_mean R xss)]\<rparr>
             = centers\<lparr>cols := [map Finite (arithmetic_mean R xss)]\<rparr>"
    using assms(6) by (cases centers) simp
  finally show ?thesis .
qed



subsection \<open>get\_centers: the indices\<close>


lemma get_centers_sum_Inr:
  assumes "get_centers_sum data labels ns (cs, c) = Inr (cs', c')"
  shows "list_all (\<lambda>n. n < length labels \<and> labels ! n < length cs \<and> labels ! n < n_cols c) ns
         \<and> length cs' = length cs \<and> n_cols c' = n_cols c \<and> n_rows c' = n_rows c"
  using assms
proof (induction ns arbitrary: cs c)
  case Nil
  then show ?case by simp
next
  case (Cons n ns)
  from Cons.prems have a: "n < length labels" "labels ! n < length cs" "labels ! n < n_cols c"
    by (auto simp: Let_def split: if_splits)
  from Cons.prems a obtain col where
    col: "col_plus (cols c ! (labels ! n)) (cols data ! n) = Inr col"
    and rec: "get_centers_sum data labels ns
                (cs[labels ! n := cs ! (labels ! n) + 1], c\<lparr>cols := (cols c)[labels ! n := col]\<rparr>) = Inr (cs', c')"
    by (auto simp: Let_def split: sum.splits)
  from Cons.IH [OF rec] a show ?case by simp
qed



lemma get_centers_divide_Inr:
  assumes "get_centers_divide is cs c = Inr c'"
  shows "list_all (\<lambda>i. i < n_cols c) is"
  using assms
proof (induction "is" arbitrary: c)
  case Nil
  then show ?case by simp
next
  case (Cons i "is")
  from Cons.prems have i: "i < n_cols c" by (auto split: if_splits)
  with Cons.prems Cons.IH show ?case by fastforce
qed




subsection \<open>get\_centers: an empty cluster\<close>

text \<open>
  C7. Two samples, both in cluster 0 of two clusters: the call returns, and the center
  of the empty cluster 1 is NaN (0/0), neither zero nor the center of cluster 0.
\<close>

theorem get_centers_empty_cluster_NaN:
  "get_centers data_1x2 [0, 0] centers_1x2 2 = Inr \<lparr>n_rows = 1, cols = [[Finite 2], [NaN]]\<rparr>"
  by (simp add: get_centers_def data_1x2_def centers_1x2_def n_cols_def zeros_def
      col_plus_def upt_rec numeral_2_eq_2)

lemma get_centers_sum_untouched:
  assumes "get_centers_sum data labels ns (cs, c) = Inr (cs', c')"
      and "list_all (\<lambda>n. labels ! n \<noteq> i) ns"
  shows "cs' ! i = cs ! i \<and> cols c' ! i = cols c ! i"
  using assms
proof (induction ns arbitrary: cs c)
  case Nil
  then show ?case by simp
next
  case (Cons n ns)
  from Cons.prems(1) obtain col where
    rec: "get_centers_sum data labels ns
            (cs[labels ! n := cs ! (labels ! n) + 1], c\<lparr>cols := (cols c)[labels ! n := col]\<rparr>) = Inr (cs', c')"
    by (auto simp: Let_def split: if_splits sum.splits)
  from Cons.prems(2) have ne: "labels ! n \<noteq> i" and rest: "list_all (\<lambda>n. labels ! n \<noteq> i) ns"
    by simp_all
  from Cons.IH [OF rec rest] ne show ?case by simp
qed

lemma get_centers_divide_nth:
  assumes "get_centers_divide is cs c = Inr c'" and "distinct is"
  shows "cols c' ! i = (if i \<in> set is then map (\<lambda>x. ddiv_int x (cs ! i)) (cols c ! i) else cols c ! i)"
  using assms
proof (induction "is" arbitrary: c)
  case Nil
  then show ?case by simp
next
  case (Cons j "is")
  let ?c = "c\<lparr>cols := (cols c)[j := map (\<lambda>x. ddiv_int x (cs ! j)) (cols c ! j)]\<rparr>"
  from Cons.prems(1) have j: "j < n_cols c" and rec: "get_centers_divide is cs ?c = Inr c'"
    by (auto split: if_splits)
  from Cons.prems(2) have d: "distinct is" and nj: "j \<notin> set is" by simp_all
  show ?case
  proof (cases "i = j")
    case True
    with Cons.IH [OF rec d] j nj show ?thesis by (simp add: n_cols_def)
  next
    case False
    with Cons.IH [OF rec d] show ?thesis by simp
  qed
qed

text \<open>
  The same for every call that returns: the center of a cluster that none of the labels
  read names is NaN in each coordinate.
\<close>

lemma get_centers_empty_cluster:
  assumes ret: "get_centers data labels centers k = Inr r"
      and i: "int i < k"
      and empty: "list_all (\<lambda>l. l \<noteq> i) (take (n_cols data) labels)"
  shows "cols r ! i = replicate (n_rows centers) NaN"
proof -
  from ret have k: "0 \<le> k" by (auto simp: get_centers_def split: if_splits)
  from ret k obtain cs' c' where
    s: "get_centers_sum data labels [0..<n_cols data] (replicate (nat k) 0, zeros centers) = Inr (cs', c')"
    and d: "get_centers_divide [0..<nat k] cs' c' = Inr r"
    by (auto simp: get_centers_def split: sum.splits)
  from get_centers_sum_Inr [OF s] have
    len: "\<And>n. n < n_cols data \<Longrightarrow> n < length labels" and nc: "n_cols c' = n_cols centers"
    by (simp_all add: list_all_upt)
  have ink: "i < nat k" using i by simp
  from get_centers_divide_Inr [OF d] ink nc have ic: "i < n_cols centers"
    by (simp add: list_all_upt)
  have "n_cols data \<le> length labels" using len by (meson not_le_imp_less less_irrefl)
  with empty have "list_all (\<lambda>n. labels ! n \<noteq> i) [0..<n_cols data]"
    by (simp add: list_all_upt list_all_take_nth)
  from get_centers_sum_untouched [OF s this] ink ic
  have z: "cs' ! i = 0" "cols c' ! i = replicate (n_rows centers) (Finite 0)"
    by (simp_all add: zeros_def)
  from get_centers_divide_nth [OF d, of i] ink z show ?thesis by simp
qed

subsection \<open>KMeans\<close>




lemma KMeans_conversion:
  assumes "0 < ndim" and "ndim < 2 ^ 31" and "length samples < 2 ^ 31"
  shows "feature_array_to_arma_mat id samples
           \<lparr>n_rows = ndim, cols = replicate (length samples div ndim) (replicate ndim (Finite 0))\<rparr> =
         (if \<not> ndim dvd length samples
          then Inl (range_error ''Source vector dimension and matrix dimensions do not agree!'')
          else Inr \<lparr>n_rows = ndim,
                    cols = map (\<lambda>c. take ndim (drop (c * ndim) samples)) [0..<length samples div ndim]\<rparr>)"
proof -
  let ?out = "\<lparr>n_rows = ndim, cols = replicate (length samples div ndim) (replicate ndim (Finite 0))\<rparr>"
  have le: "ndim * (length samples div ndim) \<le> length samples" by simp
  have 1: "n_rows ?out * n_cols ?out < 2 ^ 31"
    using le_less_trans [OF le assms(3)] by (simp add: n_cols_def)
  have "length samples div ndim \<le> length samples" by (rule div_le_dividend)
  from le_less_trans [OF this assms(3)] have 3: "n_cols ?out < 2 ^ 31" by (simp add: n_cols_def)
  have 2: "n_rows ?out < 2 ^ 31" using assms(2) by simp
  have d: "length samples \<noteq> ndim * (length samples div ndim) \<longleftrightarrow> \<not> ndim dvd length samples"
    by (metis dvd_mult_div_cancel dvd_triv_left)
  from feature_array_to_arma_mat_in_range [OF 1 2 3 assms(3), of id] d
  show ?thesis by (simp add: n_cols_def)
qed






lemma length_concat_uniform:
  "list_all (\<lambda>c. length c = n) xss \<Longrightarrow> length (concat xss) = n * length xss"
  by (induction xss) simp_all

lemma concat_chunks:
  "list_all (\<lambda>c. length c = n) xss \<Longrightarrow>
     map (\<lambda>c. take n (drop (c * n) (concat xss))) [0..<length xss] = xss"
proof (induction xss)
  case Nil
  then show ?case by simp
next
  case (Cons x xss)
  then have x: "length x = n" and rest: "list_all (\<lambda>c. length c = n) xss" by simp_all
  have "map (\<lambda>c. take n (drop (c * n) (concat (x # xss)))) [0..<length (x # xss)]
        = take n (x @ concat xss) # map (\<lambda>c. take n (drop (Suc c * n) (x @ concat xss))) [0..<length xss]"
    by (simp add: map_upt_Suc del: upt_Suc)
  also have "take n (x @ concat xss) = x" using x by simp
  also have "map (\<lambda>c. take n (drop (Suc c * n) (x @ concat xss))) [0..<length xss]
             = map (\<lambda>c. take n (drop (c * n) (concat xss))) [0..<length xss]"
    using x by simp
  also have "\<dots> = xss" by (rule Cons.IH [OF rest])
  finally show ?case .
qed

text \<open>
  With \<open>k = 1\<close>, and a clustering that labels every sample 0 (there is no other label
  below 1), \<open>KMeans\<close> returns the arithmetic mean of the samples.
\<close>

lemma KMeans_single_cluster:
  assumes "0 < ndim" and "ndim < 2 ^ 31" and "xss \<noteq> []" and "list_all (\<lambda>c. length c = ndim) xss"
      and "length (concat xss) < 2 ^ 31"
      and "length xss \<le> length (cluster 1 \<lparr>n_rows = ndim, cols = map (map Finite) xss\<rparr>)"
      and "list_all (\<lambda>l. l < 1) (cluster 1 \<lparr>n_rows = ndim, cols = map (map Finite) xss\<rparr>)"
  shows "KMeans cluster ndim 1 (map Finite (concat xss)) = Inr (map Finite (arithmetic_mean ndim xss))"
proof -
  let ?samples = "map Finite (concat xss)"
  let ?D = "\<lparr>n_rows = ndim, cols = map (map Finite) xss\<rparr>"
  let ?centers = "\<lparr>n_rows = ndim, cols = [replicate ndim (Finite 0)]\<rparr>"
  have fin: "list_all (\<lambda>c. length c = ndim) (map (map Finite) xss)"
    using assms(4) by (simp add: list_all_iff)
  have sc: "?samples = concat (map (map Finite) xss)" by (simp add: map_concat)
  have len: "length ?samples = ndim * length xss"
    using length_concat_uniform [OF assms(4)] by simp
  then have dvd: "ndim dvd length ?samples" and dv: "length ?samples div ndim = length xss"
    using assms(1) by simp_all
  have l31: "length ?samples < 2 ^ 31" using assms(5) by simp
  have chunks: "map (\<lambda>c. take ndim (drop (c * ndim) ?samples)) [0..<length xss] = map (map Finite) xss"
    unfolding sc using concat_chunks [OF fin] by simp
  have conv: "feature_array_to_arma_mat id ?samples
           \<lparr>n_rows = ndim, cols = replicate (length ?samples div ndim) (replicate ndim (Finite 0))\<rparr> = Inr ?D"
    using KMeans_conversion [OF assms(1,2) l31] dvd by (simp only: dv chunks) simp
  have nc: "n_cols ?D = length xss" by (simp add: n_cols_def)
  have k: "\<not> int (n_cols ?D) < 1" using assms(3) by (simp add: nc)
  have gc: "get_centers ?D (cluster 1 ?D) ?centers 1 = Inr (?centers\<lparr>cols := [map Finite (arithmetic_mean ndim xss)]\<rparr>)"
    by (rule get_centers_mean [OF assms(3,4,6,7)]) (simp_all add: n_cols_def)
  from conv have conv': "feature_array_to_arma_mat id ?samples
           \<lparr>n_rows = ndim, cols = replicate (length (concat xss) div ndim) (replicate ndim (Finite 0))\<rparr> = Inr ?D"
    by simp
  show ?thesis
    using assms(1,3) by (simp add: KMeans_def conv' gc n_cols_def)
qed

subsection \<open>Deactivating arcs\<close>

lemma nodes_deactivate_arcs [simp]: "nodes (deactivate_arcs g as) = nodes g"
  by (simp add: deactivate_arcs_def)

lemma length_arcs_deactivate_arcs [simp]: "length (arcs (deactivate_arcs g as)) = length (arcs g)"
  by (simp add: deactivate_arcs_def)

lemma nth_arcs_deactivate_arcs:
  "a < length (arcs g) \<Longrightarrow>
     arcs (deactivate_arcs g as) ! a = (if a \<in> set as then (arcs g ! a)\<lparr>a_active := False\<rparr> else arcs g ! a)"
  by (simp add: deactivate_arcs_def)

lemma active_in_arcs_deactivate_arcs:
  "active_in_arcs (deactivate_arcs g as) v = filter (\<lambda>a. a \<notin> set as) (active_in_arcs g v)"
  unfolding active_in_arcs_def filter_filter
  by (rule filter_cong) (auto simp: nth_arcs_deactivate_arcs)

lemma active_out_arcs_deactivate_arcs:
  "active_out_arcs (deactivate_arcs g as) v = filter (\<lambda>a. a \<notin> set as) (active_out_arcs g v)"
  unfolding active_out_arcs_def filter_filter
  by (rule filter_cong) (auto simp: nth_arcs_deactivate_arcs)

lemma distinct_active_in_arcs [simp]: "distinct (active_in_arcs g v)"
  by (simp add: active_in_arcs_def)

lemma distinct_active_out_arcs [simp]: "distinct (active_out_arcs g v)"
  by (simp add: active_out_arcs_def)





subsection \<open>The greedy resolver: at most one arc\<close>

lemma nodes_keep_min [simp]: "nodes (keep_min g as) = nodes g"
  by (simp add: keep_min_def)

lemma length_arcs_keep_min [simp]: "length (arcs (keep_min g as)) = length (arcs g)"
  by (simp add: keep_min_def)

lemma active_in_arcs_keep_min:
  "active_in_arcs (keep_min g as) v =
     filter (\<lambda>a. \<not> (1 < length as \<and> a \<in> set as \<and> a \<noteq> arg_min_list (arc_weight g) as))
       (active_in_arcs g v)"
  by (auto simp: keep_min_def active_in_arcs_deactivate_arcs intro: filter_cong)

lemma active_out_arcs_keep_min:
  "active_out_arcs (keep_min g as) v =
     filter (\<lambda>a. \<not> (1 < length as \<and> a \<in> set as \<and> a \<noteq> arg_min_list (arc_weight g) as))
       (active_out_arcs g v)"
  by (auto simp: keep_min_def active_out_arcs_deactivate_arcs intro: filter_cong)

lemma filter_eq_singleton:
  assumes "distinct xs" and "m \<in> set xs"
  shows "filter (\<lambda>a. a = m) xs = [m]"
  using assms by (induction xs) (auto simp: filter_empty_conv)

lemma keep_min_own_list:
  assumes "distinct as" and "1 < length as"
  shows "filter (\<lambda>a. \<not> (1 < length as \<and> a \<in> set as \<and> a \<noteq> arg_min_list f as)) as = [arg_min_list f as]"
proof -
  from assms(2) have ne: "as \<noteq> []" by auto
  have "filter (\<lambda>a. \<not> (1 < length as \<and> a \<in> set as \<and> a \<noteq> arg_min_list f as)) as
        = filter (\<lambda>a. a = arg_min_list f as) as"
    using assms(2) by (intro filter_cong) auto
  with filter_eq_singleton [OF assms(1) arg_min_list_in [OF ne, of f]] show ?thesis by simp
qed

lemma active_in_arcs_resolve_in:
  "active_in_arcs (resolve_in g v) v =
     (if 1 < length (active_in_arcs g v) then [arg_min_list (arc_weight g) (active_in_arcs g v)]
      else active_in_arcs g v)"
proof (cases "1 < length (active_in_arcs g v)")
  case True
  from keep_min_own_list [OF distinct_active_in_arcs True, of "arc_weight g"] True
  show ?thesis by (simp only: resolve_in_def active_in_arcs_keep_min if_True)
next
  case False
  then show ?thesis by (simp add: resolve_in_def active_in_arcs_keep_min)
qed

lemma active_out_arcs_resolve_out:
  "active_out_arcs (resolve_out g v) v =
     (if 1 < length (active_out_arcs g v) then [arg_min_list (arc_weight g) (active_out_arcs g v)]
      else active_out_arcs g v)"
proof (cases "1 < length (active_out_arcs g v)")
  case True
  from keep_min_own_list [OF distinct_active_out_arcs True, of "arc_weight g"] True
  show ?thesis by (simp only: resolve_out_def active_out_arcs_keep_min if_True)
next
  case False
  then show ?thesis by (simp add: resolve_out_def active_out_arcs_keep_min)
qed

lemma keep_min_in_le: "length (active_in_arcs (keep_min g as) u) \<le> length (active_in_arcs g u)"
  by (simp add: active_in_arcs_keep_min)

lemma keep_min_out_le: "length (active_out_arcs (keep_min g as) u) \<le> length (active_out_arcs g u)"
  by (simp add: active_out_arcs_keep_min)

lemma nodes_greedy_step [simp]: "nodes (greedy_step v g) = nodes g"
  by (simp add: greedy_step_def resolve_in_def resolve_out_def)

lemma length_arcs_greedy_step [simp]: "length (arcs (greedy_step v g)) = length (arcs g)"
  by (simp add: greedy_step_def resolve_in_def resolve_out_def)

lemma greedy_step_le:
  "length (active_in_arcs (greedy_step v g) u) \<le> length (active_in_arcs g u)"
  "length (active_out_arcs (greedy_step v g) u) \<le> length (active_out_arcs g u)"
  unfolding greedy_step_def resolve_in_def resolve_out_def
  by (meson keep_min_in_le keep_min_out_le le_trans)+

lemma greedy_step_self:
  "length (active_in_arcs (greedy_step v g) v) \<le> 1"
  "length (active_out_arcs (greedy_step v g) v) \<le> 1"
proof -
  have "length (active_in_arcs (resolve_in g v) v) \<le> 1"
    by (simp add: active_in_arcs_resolve_in)
  moreover have "length (active_in_arcs (greedy_step v g) v) \<le> length (active_in_arcs (resolve_in g v) v)"
    unfolding greedy_step_def resolve_out_def by (rule keep_min_in_le)
  ultimately show "length (active_in_arcs (greedy_step v g) v) \<le> 1" by simp
  show "length (active_out_arcs (greedy_step v g) v) \<le> 1"
    unfolding greedy_step_def by (simp add: active_out_arcs_resolve_out)
qed

lemma fold_greedy_step:
  "nodes (fold greedy_step vs g) = nodes g
   \<and> (\<forall>u. length (active_in_arcs (fold greedy_step vs g) u) \<le> length (active_in_arcs g u)
         \<and> length (active_out_arcs (fold greedy_step vs g) u) \<le> length (active_out_arcs g u))
   \<and> (\<forall>v\<in>set vs. length (active_in_arcs (fold greedy_step vs g) v) \<le> 1
         \<and> length (active_out_arcs (fold greedy_step vs g) v) \<le> 1)"
proof (induction vs arbitrary: g)
  case Nil
  then show ?case by simp
next
  case (Cons v vs)
  let ?g = "greedy_step v g"
  note IH = Cons.IH [of ?g]
  have le: "\<And>u. length (active_in_arcs (fold greedy_step vs ?g) u) \<le> length (active_in_arcs g u)
         \<and> length (active_out_arcs (fold greedy_step vs ?g) u) \<le> length (active_out_arcs g u)"
    using IH greedy_step_le [of v g] by (meson le_trans)
  have self: "length (active_in_arcs (fold greedy_step vs ?g) v) \<le> 1
         \<and> length (active_out_arcs (fold greedy_step vs ?g) v) \<le> 1"
    using IH greedy_step_self [of v g] by (meson le_trans)
  from IH le self show ?case by auto
qed

lemma ResolveAmbiguousArcsGreedy_max_one_arc:
  assumes "ResolveAmbiguousArcsGreedy g = Inr g'"
  shows "max_one_arc g' \<and> nodes g' = nodes g"
proof -
  from assms have g': "g' = fold greedy_step [0..<length (nodes g)] g"
    by (simp add: ResolveAmbiguousArcsGreedy_def)
  from fold_greedy_step [of "[0..<length (nodes g)]" g] show ?thesis
    unfolding g' max_one_arc_def by (simp add: list_all_iff)
qed

subsection \<open>The exact resolver\<close>

lemma nodes_conclude [simp]: "nodes (conclude g sel) = nodes g"
  by (simp add: conclude_def)

lemma length_arcs_conclude [simp]: "length (arcs (conclude g sel)) = length (arcs g)"
  by (simp add: conclude_def)

lemma active_in_arcs_conclude:
  "active_in_arcs (conclude g sel) v =
     filter (\<lambda>a. a \<in> set sel \<and> a_target (arcs g ! a) = v) [0..<length (arcs g)]"
  unfolding active_in_arcs_def
  by (rule filter_cong) (auto simp: conclude_def)

lemma active_out_arcs_conclude:
  "active_out_arcs (conclude g sel) v =
     filter (\<lambda>a. a \<in> set sel \<and> a_source (arcs g ! a) = v) [0..<length (arcs g)]"
  unfolding active_out_arcs_def
  by (rule filter_cong) (auto simp: conclude_def)

lemma length_filter_member_le:
  "length (filter (\<lambda>a. a \<in> set sel \<and> P a) [0..<n]) \<le> length (filter P sel)"
proof -
  have "length (filter (\<lambda>a. a \<in> set sel \<and> P a) [0..<n])
        = card (set (filter (\<lambda>a. a \<in> set sel \<and> P a) [0..<n]))"
    by (rule distinct_card [symmetric]) simp
  also have "\<dots> \<le> card (set (filter P sel))"
    by (rule card_mono) auto
  also have "\<dots> \<le> length (filter P sel)"
    by (rule card_length)
  finally show ?thesis .
qed

lemma Nil_in_subseqs: "[] \<in> set (subseqs xs)"
  by (induction xs) (auto simp: Let_def)

lemma admissible_infer: "admissible g (infer g)"
proof -
  have "[] \<in> set (subseqs (formulate g))"
    by (rule Nil_in_subseqs)
  moreover have "admissible g []" by (simp add: admissible_def list_all_iff)
  ultimately have "filter (admissible g) (subseqs (formulate g)) \<noteq> []"
    by (auto simp: filter_empty_conv)
  from arg_min_list_in [OF this, of "total_weight g"] show ?thesis
    by (simp add: infer_def)
qed

lemma conclude_max_one_arc:
  assumes "admissible g sel"
  shows "max_one_arc (conclude g sel)"
  unfolding max_one_arc_def list_all_iff
proof
  fix v assume "v \<in> set [0..<length (nodes (conclude g sel))]"
  with assms have
    "length (filter (\<lambda>a. a_target (arcs g ! a) = v) sel) \<le> 1"
    "length (filter (\<lambda>a. a_source (arcs g ! a) = v) sel) \<le> 1"
    by (simp_all add: admissible_def list_all_iff)
  with length_filter_member_le [of sel "\<lambda>a. a_target (arcs g ! a) = v" "length (arcs g)"]
       length_filter_member_le [of sel "\<lambda>a. a_source (arcs g ! a) = v" "length (arcs g)"]
  show "length (active_in_arcs (conclude g sel) v) \<le> 1 \<and> length (active_out_arcs (conclude g sel) v) \<le> 1"
    by (simp add: active_in_arcs_conclude active_out_arcs_conclude)
qed

lemma ResolveAmbiguousArcsPgm_max_one_arc:
  assumes "ResolveAmbiguousArcsPgm g = Inr g'"
  shows "max_one_arc g' \<and> nodes g' = nodes g"
  using assms conclude_max_one_arc [OF admissible_infer, of g]
  by (auto simp: ResolveAmbiguousArcsPgm_def)

subsection \<open>The scenario\<close>

lemma scenario_expanded:
  "refine_nodes spread_extractor position_distance (mergers g_scenario) g_scenario = Inr g_expanded"
  by code_simp

lemma scenario_greedy:
  "ResolveAmbiguousArcsGreedy g_expanded = Inr g_resolved"
  by code_simp

lemma scenario_pgm:
  "ResolveAmbiguousArcsPgm g_expanded = Inr g_resolved"
  by code_simp

lemma scenario_unique_ids: "unique_ids g_scenario"
  by code_simp

lemma spread_extractor_length: "spread_extractor trax n max_id = Inr ft \<Longrightarrow> length ft = n"
  by (auto simp: spread_extractor_def)

subsection \<open>resolve\_mergers: the arcs\<close>

text \<open>
  C1. Whatever graph \<open>resolve_mergers\<close> returns, with the greedy or with the exact
  resolver of ambiguous arcs, each of its nodes has at most one active incoming arc and
  at most one active outgoing arc.
\<close>

theorem resolve_mergers_max_one_arc:
  assumes "resolve_mergers resolver extractor distance g = Inr g'"
      and "resolver = ResolveAmbiguousArcsGreedy \<or> resolver = ResolveAmbiguousArcsPgm"
  shows "\<forall>v < length (nodes g'). length (active_in_arcs g' v) \<le> 1 \<and> length (active_out_arcs g' v) \<le> 1"
proof -
  from assms(1) obtain g1 where "resolver g1 = Inr g'"
    by (auto simp: resolve_mergers_def split: sum.splits)
  with assms(2) have "max_one_arc g'"
    using ResolveAmbiguousArcsGreedy_max_one_arc ResolveAmbiguousArcsPgm_max_one_arc by blast
  then show ?thesis by (simp add: max_one_arc_def list_all_iff)
qed

text \<open>C1 on the scenario of the specification, with either resolver.\<close>

theorem resolve_mergers_max_one_arc_witness:
  "resolve_mergers ResolveAmbiguousArcsGreedy spread_extractor position_distance g_scenario = Inr g_resolved
   \<and> resolve_mergers ResolveAmbiguousArcsPgm spread_extractor position_distance g_scenario = Inr g_resolved
   \<and> length (nodes g_resolved) = 5
   \<and> max_one_arc g_resolved"
proof -
  have greedy: "resolve_mergers ResolveAmbiguousArcsGreedy spread_extractor position_distance g_scenario = Inr g_resolved"
    by (simp add: resolve_mergers_def scenario_expanded scenario_greedy)
  have pgm: "resolve_mergers ResolveAmbiguousArcsPgm spread_extractor position_distance g_scenario = Inr g_resolved"
    by (simp add: resolve_mergers_def scenario_expanded scenario_pgm)
  have len: "length (nodes g_resolved) = 5"
    by (simp add: g_resolved_def g_expanded_def)
  from resolve_mergers_max_one_arc [OF greedy] have "max_one_arc g_resolved"
    by (simp add: max_one_arc_def list_all_iff)
  with greedy pgm len show ?thesis by blast
qed

subsection \<open>The greedy resolver: which arc is kept\<close>



text \<open>
  No resolver can do on the fork what C5 asks of every node: node 1 would have to keep
  arc 0, and node 0 would have to drop it.
\<close>

lemma greedy_claim_unsatisfiable: "\<not> greedy_claim g_fork g'"
proof
  assume c: "greedy_claim g_fork g'"
  have i: "active_in_arcs g_fork 1 = [0, 1]" and o: "active_out_arcs g_fork 0 = [0, 2]"
    by code_simp+
  have w: "arc_weight g_fork 0 = 1" "arc_weight g_fork 1 = 2" "arc_weight g_fork 2 = 1/2"
    by (simp_all add: arc_weight_def g_fork_def)
  have n: "length (nodes g_fork) = 4" by (simp add: g_fork_def)
  from c have 1: "keeps_one_min g_fork g' [0, 1]" and 2: "keeps_one_min g_fork g' [0, 2]"
    unfolding greedy_claim_def list_all_iff n using i o by (auto dest: bspec [of _ _ 0] bspec [of _ _ 1])
  from 1 w have "a_active (arcs g' ! 0)"
    by (auto simp: keeps_one_min_def split: if_splits)
  moreover from 2 w have "\<not> a_active (arcs g' ! 0)"
    by (auto simp: keeps_one_min_def split: if_splits)
  ultimately show False by simp
qed










subsection \<open>resolve\_mergers: the nodes\<close>

lemma nodes_add_arcs_for_replacement_node [simp]:
  "nodes (add_arcs_for_replacement_node distance g node trax src dest) = nodes g"
  by (simp add: add_arcs_for_replacement_node_def)

lemma nodes_fold_add_arcs [simp]:
  "nodes (fold (\<lambda>j g. add_arcs_for_replacement_node distance g (f j) (h j) src dest) js g) = nodes g"
  by (induction js arbitrary: g) simp_all

lemma refine_node_nodes:
  assumes "refine_node extractor distance g v = Inr g1" and "v < length (nodes g)"
  shows "\<exists>ft. extractor (n_traxel (nodes g ! v)) (n_count (nodes g ! v))
                  (get_max_id g (n_timestep (nodes g ! v))) = Inr ft
          \<and> nodes g1 = (nodes g)[v := (nodes g ! v)\<lparr>n_active := False, n_resolved_to := map Id ft\<rparr>]
                        @ map (new_node (nodes g ! v)) ft"
  using assms
  by (auto simp: refine_node_def collect_arcs_empty Let_def list_update_append split: sum.splits)

lemma refine_nodes_old_nodes:
  assumes "refine_nodes extractor distance vs g = Inr g'" and "\<forall>v\<in>set vs. v < length (nodes g)"
  shows "length (nodes g) \<le> length (nodes g')
         \<and> (\<forall>u < length (nodes g).
               (u \<notin> set vs \<longrightarrow> nodes g' ! u = nodes g ! u)
               \<and> (u \<in> set vs \<longrightarrow> \<not> n_active (nodes g' ! u))
               \<and> n_count (nodes g' ! u) = n_count (nodes g ! u)
               \<and> n_timestep (nodes g' ! u) = n_timestep (nodes g ! u)
               \<and> n_traxel (nodes g' ! u) = n_traxel (nodes g ! u))"
  using assms
proof (induction vs arbitrary: g)
  case Nil
  then show ?case by simp
next
  case (Cons v vs)
  from Cons.prems(1) obtain g1 where
    r: "refine_node extractor distance g v = Inr g1"
    and rest: "refine_nodes extractor distance vs g1 = Inr g'"
    by (auto split: sum.splits)
  from Cons.prems(2) have v: "v < length (nodes g)" by simp
  from refine_node_nodes [OF r v] obtain ft where
    n1: "nodes g1 = (nodes g)[v := (nodes g ! v)\<lparr>n_active := False, n_resolved_to := map Id ft\<rparr>]
                    @ map (new_node (nodes g ! v)) ft"
    by blast
  then have len1: "length (nodes g) \<le> length (nodes g1)" by simp
  have old1: "\<And>u. u < length (nodes g) \<Longrightarrow>
      nodes g1 ! u = (if u = v then (nodes g ! v)\<lparr>n_active := False, n_resolved_to := map Id ft\<rparr>
                      else nodes g ! u)"
    by (simp add: n1 nth_append)
  from Cons.prems(2) len1 have "\<forall>v\<in>set vs. v < length (nodes g1)" by auto
  from Cons.IH [OF rest this] have
    len: "length (nodes g1) \<le> length (nodes g')"
    and IH: "\<And>u. u < length (nodes g1) \<Longrightarrow>
               (u \<notin> set vs \<longrightarrow> nodes g' ! u = nodes g1 ! u)
               \<and> (u \<in> set vs \<longrightarrow> \<not> n_active (nodes g' ! u))
               \<and> n_count (nodes g' ! u) = n_count (nodes g1 ! u)
               \<and> n_timestep (nodes g' ! u) = n_timestep (nodes g1 ! u)
               \<and> n_traxel (nodes g' ! u) = n_traxel (nodes g1 ! u)"
    by blast+
  show ?case
  proof (intro conjI allI impI)
    show "length (nodes g) \<le> length (nodes g')" using len1 len by simp
  next
    fix u assume u: "u < length (nodes g)" and "u \<notin> set (v # vs)"
    with IH [of u] old1 [of u] len1 show "nodes g' ! u = nodes g ! u" by simp
  next
    fix u assume u: "u < length (nodes g)" and "u \<in> set (v # vs)"
    with IH [of u] old1 [of u] len1 show "\<not> n_active (nodes g' ! u)" by (cases "u \<in> set vs") auto
  next
    fix u assume u: "u < length (nodes g)"
    with IH [of u] old1 [of u] len1 show "n_count (nodes g' ! u) = n_count (nodes g ! u)" by simp
    from u IH [of u] old1 [of u] len1 show "n_timestep (nodes g' ! u) = n_timestep (nodes g ! u)" by simp
    from u IH [of u] old1 [of u] len1 show "n_traxel (nodes g' ! u) = n_traxel (nodes g ! u)" by simp
  qed
qed

lemma is_offspring_new_node:
  "is_offspring ts ident (new_node m trax) \<longleftrightarrow> n_timestep m = ts \<and> Id (n_traxel m) = ident"
  by (auto simp: is_offspring_def new_node_def)

lemma filter_offspring_block:
  "length (filter (is_offspring ts ident) (map (new_node m) ft)) =
     (if n_timestep m = ts \<and> Id (n_traxel m) = ident then length ft else 0)"
  by (simp add: filter_map comp_def is_offspring_new_node)

lemma refine_nodes_new_nodes:
  assumes "refine_nodes extractor distance vs g = Inr g'" and "\<forall>v\<in>set vs. v < length (nodes g)"
      and contract: "\<And>trax n max_id ft. extractor trax n max_id = Inr ft \<Longrightarrow> length ft = n"
  shows "length (filter (is_offspring ts ident) (drop (length (nodes g)) (nodes g'))) =
           (\<Sum>v\<leftarrow>vs. if n_timestep (nodes g ! v) = ts \<and> Id (n_traxel (nodes g ! v)) = ident
                       then n_count (nodes g ! v) else 0)
         \<and> list_all (\<lambda>n. n_count n = 1) (drop (length (nodes g)) (nodes g'))"
  using assms(1,2)
proof (induction vs arbitrary: g)
  case Nil
  then show ?case by simp
next
  case (Cons v vs)
  let ?L = "length (nodes g)"
  let ?m = "nodes g ! v"
  from Cons.prems(1) obtain g1 where
    r: "refine_node extractor distance g v = Inr g1"
    and rest: "refine_nodes extractor distance vs g1 = Inr g'"
    by (auto split: sum.splits)
  from Cons.prems(2) have v: "v < ?L" and vs: "\<forall>u\<in>set vs. u < ?L" by simp_all
  from refine_node_nodes [OF r v] obtain ft where
    ex: "extractor (n_traxel ?m) (n_count ?m) (get_max_id g (n_timestep ?m)) = Inr ft"
    and n1: "nodes g1 = (nodes g)[v := ?m\<lparr>n_active := False, n_resolved_to := map Id ft\<rparr>]
                        @ map (new_node ?m) ft"
    by blast
  from contract [OF ex] have lft: "length ft = n_count ?m" .
  from n1 have L1: "length (nodes g1) = ?L + length ft" by simp
  with vs have vs1: "\<forall>u\<in>set vs. u < length (nodes g1)" by auto
  from refine_nodes_old_nodes [OF rest vs1] have
    len: "length (nodes g1) \<le> length (nodes g')"
    and same: "\<And>u. u < length (nodes g1) \<Longrightarrow> u \<notin> set vs \<Longrightarrow> nodes g' ! u = nodes g1 ! u"
    by blast+
  have old: "\<And>u. u \<in> set vs \<Longrightarrow>
      n_timestep (nodes g1 ! u) = n_timestep (nodes g ! u)
      \<and> n_traxel (nodes g1 ! u) = n_traxel (nodes g ! u)
      \<and> n_count (nodes g1 ! u) = n_count (nodes g ! u)"
  proof -
    fix u assume "u \<in> set vs"
    with vs have "u < ?L" by simp
    then show "n_timestep (nodes g1 ! u) = n_timestep (nodes g ! u)
      \<and> n_traxel (nodes g1 ! u) = n_traxel (nodes g ! u)
      \<and> n_count (nodes g1 ! u) = n_count (nodes g ! u)"
      by (cases "u = v") (simp_all add: n1 nth_append)
  qed
  have block: "take (length ft) (drop ?L (nodes g')) = map (new_node ?m) ft"
  proof (rule nth_equalityI)
    show "length (take (length ft) (drop ?L (nodes g'))) = length (map (new_node ?m) ft)"
      using len L1 by simp
  next
    fix j assume "j < length (take (length ft) (drop ?L (nodes g')))"
    then have j: "j < length ft" by simp
    then have "?L + j < length (nodes g1)" using L1 by simp
    moreover have "?L + j \<notin> set vs" using vs by auto
    ultimately have "nodes g' ! (?L + j) = nodes g1 ! (?L + j)" by (rule same)
    also have "\<dots> = map (new_node ?m) ft ! j" by (simp add: n1 nth_append)
    finally show "take (length ft) (drop ?L (nodes g')) ! j = map (new_node ?m) ft ! j"
      using j len L1 by simp
  qed
  have split: "drop ?L (nodes g') = map (new_node ?m) ft @ drop (length (nodes g1)) (nodes g')"
  proof -
    have "drop ?L (nodes g') = take (length ft) (drop ?L (nodes g')) @ drop (length ft) (drop ?L (nodes g'))"
      by (rule append_take_drop_id [symmetric])
    also have "drop (length ft) (drop ?L (nodes g')) = drop (length (nodes g1)) (nodes g')"
      by (simp add: L1 add.commute)
    finally show ?thesis by (simp only: block)
  qed
  from Cons.IH [OF rest vs1] have
    IH1: "length (filter (is_offspring ts ident) (drop (length (nodes g1)) (nodes g'))) =
           (\<Sum>v\<leftarrow>vs. if n_timestep (nodes g1 ! v) = ts \<and> Id (n_traxel (nodes g1 ! v)) = ident
                       then n_count (nodes g1 ! v) else 0)"
    and IH2: "list_all (\<lambda>n. n_count n = 1) (drop (length (nodes g1)) (nodes g'))"
    by blast+
  have sums: "(\<Sum>v\<leftarrow>vs. if n_timestep (nodes g1 ! v) = ts \<and> Id (n_traxel (nodes g1 ! v)) = ident
                       then n_count (nodes g1 ! v) else 0)
            = (\<Sum>v\<leftarrow>vs. if n_timestep (nodes g ! v) = ts \<and> Id (n_traxel (nodes g ! v)) = ident
                       then n_count (nodes g ! v) else 0)"
    by (rule arg_cong [where f = sum_list], rule map_cong) (simp_all add: old)
  have ones: "list_all (\<lambda>n. n_count n = 1) (map (new_node ?m) ft)"
    by (simp add: list_all_iff new_node_def)
  have "length (filter (is_offspring ts ident) (drop ?L (nodes g')))
        = length (filter (is_offspring ts ident) (map (new_node ?m) ft))
          + length (filter (is_offspring ts ident) (drop (length (nodes g1)) (nodes g')))"
    by (simp only: split filter_append length_append)
  also have "\<dots> = (if n_timestep ?m = ts \<and> Id (n_traxel ?m) = ident then length ft else 0)
          + (\<Sum>v\<leftarrow>vs. if n_timestep (nodes g ! v) = ts \<and> Id (n_traxel (nodes g ! v)) = ident
                       then n_count (nodes g ! v) else 0)"
    by (simp only: filter_offspring_block IH1 sums)
  finally have count: "length (filter (is_offspring ts ident) (drop ?L (nodes g')))
        = (\<Sum>v\<leftarrow>v # vs. if n_timestep (nodes g ! v) = ts \<and> Id (n_traxel (nodes g ! v)) = ident
                       then n_count (nodes g ! v) else 0)"
    using lft by simp
  have "list_all (\<lambda>n. n_count n = 1) (drop ?L (nodes g'))"
    using ones IH2 by (simp only: split list_all_append)
  with count show ?case by simp
qed

lemma sum_list_single:
  assumes "distinct xs" and "v \<in> set xs" and "\<forall>u\<in>set xs. u \<noteq> v \<longrightarrow> f u = (0::nat)"
  shows "sum_list (map f xs) = f v"
  using assms
proof (induction xs)
  case Nil
  then show ?case by simp
next
  case (Cons x xs)
  show ?case
  proof (cases "x = v")
    case True
    with Cons.prems have "\<forall>u\<in>set xs. f u = 0" by auto
    then have "sum_list (map f xs) = 0" by (simp add: sum_list_eq_0_iff)
    with True show ?thesis by simp
  next
    case False
    with Cons.prems Cons.IH show ?thesis by auto
  qed
qed

lemma unique_ids_nth:
  assumes "unique_ids g" and "u < length (nodes g)" and "v < length (nodes g)"
      and "n_timestep (nodes g ! u) = n_timestep (nodes g ! v)"
      and "Id (n_traxel (nodes g ! u)) = Id (n_traxel (nodes g ! v))"
  shows "u = v"
proof -
  let ?k = "map (\<lambda>n. (n_timestep n, Id (n_traxel n))) (nodes g)"
  from assms(2-5) have "?k ! u = ?k ! v" by simp
  with assms(1-3) show ?thesis by (simp add: unique_ids_def nth_eq_iff_index_eq del: nth_map)
qed

lemma refine_node_returns:
  assumes "\<And>trax n max_id. \<exists>ft. extractor trax n max_id = Inr ft"
  shows "\<exists>g1. refine_node extractor distance g v = Inr g1"
proof -
  from assms obtain ft where
    "extractor (n_traxel (nodes g ! v)) (n_count (nodes g ! v)) (get_max_id g (n_timestep (nodes g ! v))) = Inr ft"
    by blast
  then show ?thesis by (simp add: refine_node_def collect_arcs_empty Let_def)
qed

lemma refine_nodes_returns:
  assumes "\<And>trax n max_id. \<exists>ft. extractor trax n max_id = Inr ft"
  shows "\<exists>g'. refine_nodes extractor distance vs g = Inr g'"
proof (induction vs arbitrary: g)
  case Nil
  then show ?case by simp
next
  case (Cons v vs)
  from refine_node_returns [of extractor distance g v] assms obtain g1 where
    "refine_node extractor distance g v = Inr g1" by blast
  with Cons.IH [of g1] show ?case by simp
qed

text \<open>
  When the extractor never fails, \<open>resolve_mergers\<close> returns a graph with either
  resolver.
\<close>

lemma resolve_mergers_returns:
  assumes "\<And>trax n max_id. \<exists>ft. extractor trax n max_id = Inr ft"
      and "resolver = ResolveAmbiguousArcsGreedy \<or> resolver = ResolveAmbiguousArcsPgm"
  shows "\<exists>g'. resolve_mergers resolver extractor distance g = Inr g'"
proof -
  from refine_nodes_returns [of extractor distance "mergers g" g] assms(1) obtain g1 where
    "refine_nodes extractor distance (mergers g) g = Inr g1" by blast
  with assms(2) show ?thesis
    by (auto simp: resolve_mergers_def ResolveAmbiguousArcsGreedy_def ResolveAmbiguousArcsPgm_def)
qed

text \<open>
  C2. Let the identifiers of the graph be unique within each time index and let the
  extractor return as many records as it is asked for. For every active merger node
  with merger count \<open>k \<ge> 2\<close>, the graph returned by \<open>resolve_mergers\<close> has exactly
  \<open>k\<close> new active nodes at the time index of the merger whose origin is the identifier
  of the merger; each new node has merger count 1; and the merger itself is inactive.
\<close>

theorem resolve_mergers_splits_merger:
  assumes "resolve_mergers resolver extractor distance g = Inr g'"
      and "resolver = ResolveAmbiguousArcsGreedy \<or> resolver = ResolveAmbiguousArcsPgm"
      and "\<And>trax n max_id ft. extractor trax n max_id = Inr ft \<Longrightarrow> length ft = n"
      and "unique_ids g"
      and "v < length (nodes g)" and "n_active (nodes g ! v)" and "2 \<le> n_count (nodes g ! v)"
  shows "length (offspring g g' v) = n_count (nodes g ! v)
         \<and> list_all (\<lambda>n. n_count n = 1) (offspring g g' v)
         \<and> \<not> n_active (nodes g' ! v)"
proof -
  let ?ts = "n_timestep (nodes g ! v)" and ?id = "Id (n_traxel (nodes g ! v))"
  let ?f = "\<lambda>u. if n_timestep (nodes g ! u) = ?ts \<and> Id (n_traxel (nodes g ! u)) = ?id
                 then n_count (nodes g ! u) else 0"
  from assms(1) obtain g1 where
    r: "refine_nodes extractor distance (mergers g) g = Inr g1" and res: "resolver g1 = Inr g'"
    by (auto simp: resolve_mergers_def split: sum.splits)
  from res assms(2) have nodes: "nodes g' = nodes g1"
    using ResolveAmbiguousArcsGreedy_max_one_arc ResolveAmbiguousArcsPgm_max_one_arc by blast
  have bound: "\<forall>u\<in>set (mergers g). u < length (nodes g)" by (simp add: mergers_def)
  have v: "v \<in> set (mergers g)" using assms(5-7) by (simp add: mergers_def)
  have d: "distinct (mergers g)" by (simp add: mergers_def)
  have "length (filter (is_offspring ?ts ?id) (drop (length (nodes g)) (nodes g1))) = sum_list (map ?f (mergers g))
        \<and> list_all (\<lambda>n. n_count n = 1) (drop (length (nodes g)) (nodes g1))"
    by (rule refine_nodes_new_nodes [OF r bound]) (rule assms(3))
  then have
    count: "length (filter (is_offspring ?ts ?id) (drop (length (nodes g)) (nodes g1))) = sum_list (map ?f (mergers g))"
    and ones: "list_all (\<lambda>n. n_count n = 1) (drop (length (nodes g)) (nodes g1))"
    by blast+
  have "\<forall>u\<in>set (mergers g). u \<noteq> v \<longrightarrow> ?f u = 0"
    using unique_ids_nth [OF assms(4) _ assms(5)] bound by auto
  from sum_list_single [OF d v this] have "sum_list (map ?f (mergers g)) = n_count (nodes g ! v)"
    by simp
  with count have 1: "length (offspring g g' v) = n_count (nodes g ! v)"
    by (simp add: offspring_def nodes)
  from ones have 2: "list_all (\<lambda>n. n_count n = 1) (offspring g g' v)"
    by (simp add: offspring_def nodes list_all_iff)
  from refine_nodes_old_nodes [OF r bound] v assms(5) have 3: "\<not> n_active (nodes g' ! v)"
    by (simp add: nodes)
  from 1 2 3 show ?thesis by blast
qed

text \<open>C2 on the scenario: the merger of two objects is node 1.\<close>

theorem resolve_mergers_splits_merger_witness:
  "resolve_mergers ResolveAmbiguousArcsGreedy spread_extractor position_distance g_scenario = Inr g_resolved
   \<and> unique_ids g_scenario
   \<and> 1 < length (nodes g_scenario) \<and> n_active (nodes g_scenario ! 1) \<and> n_count (nodes g_scenario ! 1) = 2
   \<and> length (offspring g_scenario g_resolved 1) = 2
   \<and> list_all (\<lambda>n. n_count n = 1) (offspring g_scenario g_resolved 1)
   \<and> \<not> n_active (nodes g_resolved ! 1)"
proof -
  have r: "resolve_mergers ResolveAmbiguousArcsGreedy spread_extractor position_distance g_scenario = Inr g_resolved"
    by (simp add: resolve_mergers_def scenario_expanded scenario_greedy)
  have h: "1 < length (nodes g_scenario)" "n_active (nodes g_scenario ! 1)" "2 \<le> n_count (nodes g_scenario ! 1)"
    by (simp_all add: g_scenario_def plain_node_def)
  have c: "n_count (nodes g_scenario ! 1) = 2"
    by (simp add: g_scenario_def plain_node_def)
  from resolve_mergers_splits_merger [OF r _ spread_extractor_length scenario_unique_ids h] r c h
       scenario_unique_ids
  show ?thesis by simp
qed

subsection \<open>Well-formed graphs\<close>

text \<open>
  The operations keep the end points of the arcs among the nodes: on a well-formed graph
  every lookup of an end point of an arc is in range, throughout \<open>resolve_mergers\<close>.
\<close>

lemma wf_graph_iff:
  "wf_graph g \<longleftrightarrow> (\<forall>a < length (arcs g). a_source (arcs g ! a) < length (nodes g)
                                       \<and> a_target (arcs g ! a) < length (nodes g))"
  by (simp add: wf_graph_def list_all_length)

lemma wf_graph_deactivate_arcs: "wf_graph g \<Longrightarrow> wf_graph (deactivate_arcs g as)"
  by (simp add: wf_graph_iff nth_arcs_deactivate_arcs)

lemma wf_graph_conclude: "wf_graph g \<Longrightarrow> wf_graph (conclude g sel)"
  by (simp add: wf_graph_iff conclude_def)

lemma wf_graph_keep_min: "wf_graph g \<Longrightarrow> wf_graph (keep_min g as)"
  by (simp add: keep_min_def wf_graph_deactivate_arcs)

lemma wf_graph_greedy_step: "wf_graph g \<Longrightarrow> wf_graph (greedy_step v g)"
  by (simp add: greedy_step_def resolve_in_def resolve_out_def wf_graph_keep_min)

lemma wf_graph_fold_greedy_step: "wf_graph g \<Longrightarrow> wf_graph (fold greedy_step vs g)"
  by (induction vs arbitrary: g) (simp_all add: wf_graph_greedy_step)

lemma wf_graph_add_arcs:
  assumes "wf_graph g" and "node < length (nodes g)"
      and "\<forall>a\<in>set src \<union> set dest. a < length (arcs g)"
  shows "wf_graph (add_arcs_for_replacement_node distance g node trax src dest)
         \<and> length (arcs g) \<le> length (arcs (add_arcs_for_replacement_node distance g node trax src dest))"
  using assms
  by (auto simp: wf_graph_def add_arcs_for_replacement_node_def list_all_iff dest: nth_mem)

lemma wf_graph_fold_add_arcs:
  assumes "wf_graph g" and "\<forall>j\<in>set js. f j < length (nodes g)"
      and "\<forall>a\<in>set src \<union> set dest. a < length (arcs g)"
  shows "wf_graph (fold (\<lambda>j g. add_arcs_for_replacement_node distance g (f j) (h j) src dest) js g)"
  using assms
proof (induction js arbitrary: g)
  case Nil
  then show ?case by simp
next
  case (Cons j js)
  let ?g = "add_arcs_for_replacement_node distance g (f j) (h j) src dest"
  from Cons.prems have 1: "wf_graph ?g" and len: "length (arcs g) \<le> length (arcs ?g)"
    using wf_graph_add_arcs [of g "f j" src dest distance "h j"] by simp_all
  from Cons.prems(2) have 2: "\<forall>j\<in>set js. f j < length (nodes ?g)" by simp
  from Cons.prems(3) len have 3: "\<forall>a\<in>set src \<union> set dest. a < length (arcs ?g)"
    by (auto intro: less_le_trans)
  from Cons.IH [OF 1 2 3] show ?case by simp
qed

lemma wf_graph_refine_node:
  assumes "wf_graph g" and "refine_node extractor distance g v = Inr g'"
  shows "wf_graph g'"
proof -
  let ?m = "nodes g ! v"
  from assms(2) obtain ft where
    g': "g' = (let first = length (nodes g);
                  g1 = g\<lparr>nodes := nodes g @ map (new_node ?m) ft\<rparr>;
                  g2 = fold (\<lambda>j h. add_arcs_for_replacement_node distance h (first + j) (ft ! j)
                                    (active_in_arcs g v) (active_out_arcs g v))
                         [0..<length ft] g1;
                  g3 = deactivate_arcs (deactivate_arcs g2 (active_in_arcs g v)) (active_out_arcs g v)
              in g3\<lparr>nodes := (nodes g3)[v := ?m\<lparr>n_active := False, n_resolved_to := map Id ft\<rparr>]\<rparr>)"
    by (auto simp: refine_node_def collect_arcs_empty Let_def split: sum.splits)
  let ?g1 = "g\<lparr>nodes := nodes g @ map (new_node ?m) ft\<rparr>"
  have 1: "wf_graph ?g1" using assms(1) by (auto simp: wf_graph_def list_all_iff)
  have 2: "\<forall>j\<in>set [0..<length ft]. length (nodes g) + j < length (nodes ?g1)" by simp
  have 3: "\<forall>a\<in>set (active_in_arcs g v) \<union> set (active_out_arcs g v). a < length (arcs ?g1)"
    by (auto simp: active_in_arcs_def active_out_arcs_def)
  have "wf_graph (fold (\<lambda>j g'. add_arcs_for_replacement_node distance g' (length (nodes g) + j) (ft ! j)
                                    (active_in_arcs g v) (active_out_arcs g v)) [0..<length ft] ?g1)"
    by (rule wf_graph_fold_add_arcs [OF 1 2 3])
  then have "wf_graph (deactivate_arcs (deactivate_arcs
       (fold (\<lambda>j g'. add_arcs_for_replacement_node distance g' (length (nodes g) + j) (ft ! j)
                                    (active_in_arcs g v) (active_out_arcs g v)) [0..<length ft] ?g1)
       (active_in_arcs g v)) (active_out_arcs g v))"
    by (intro wf_graph_deactivate_arcs)
  then show ?thesis
    unfolding g' Let_def by (simp add: wf_graph_def)
qed

lemma wf_graph_refine_nodes:
  assumes "wf_graph g" and "refine_nodes extractor distance vs g = Inr g'"
  shows "wf_graph g'"
  using assms
proof (induction vs arbitrary: g)
  case Nil
  then show ?case by simp
next
  case (Cons v vs)
  from Cons.prems(2) obtain g1 where
    r: "refine_node extractor distance g v = Inr g1"
    and rest: "refine_nodes extractor distance vs g1 = Inr g'"
    by (auto split: sum.splits)
  from Cons.IH [OF wf_graph_refine_node [OF Cons.prems(1) r] rest] show ?case .
qed

lemma wf_graph_resolve_mergers:
  assumes "wf_graph g" and "resolve_mergers resolver extractor distance g = Inr g'"
      and "resolver = ResolveAmbiguousArcsGreedy \<or> resolver = ResolveAmbiguousArcsPgm"
  shows "wf_graph g'"
proof -
  from assms(2) obtain g1 where
    r: "refine_nodes extractor distance (mergers g) g = Inr g1" and res: "resolver g1 = Inr g'"
    by (auto simp: resolve_mergers_def split: sum.splits)
  from wf_graph_refine_nodes [OF assms(1) r] have "wf_graph g1" .
  with res assms(3) show ?thesis
    by (auto simp: ResolveAmbiguousArcsGreedy_def ResolveAmbiguousArcsPgm_def
        wf_graph_fold_greedy_step wf_graph_conclude)
qed

lemma scenario_wf_graph: "wf_graph g_scenario \<and> wf_graph g_fork"
  by code_simp

end
